theory Spec2Isabelle
  imports Main "HOL-Library.Word"
begin

section \<open>Document text\<close>

text \<open>
  A JavaScript string is a sequence of 16-bit code units; \<open>length\<close>, \<open>slice\<close>,
  \<open>match.index\<close> and a regular expression without the \<open>u\<close> flag all count code units.
  \<open>utf16\<close> writes a text of ASCII characters as such a sequence.
\<close>

type_synonym unit16 = "16 word"
type_synonym jstr = "unit16 list"

definition utf16 :: "string \<Rightarrow> jstr" where
  "utf16 s = map of_char s"

abbreviation LB :: unit16 where "LB \<equiv> 91"
abbreviation RB :: unit16 where "RB \<equiv> 93"
abbreviation SLASH :: unit16 where "SLASH \<equiv> 47"

section \<open>The scan: \<open>/\[\[([^\]]+?)\]\]/g\<close> driven by \<open>REGEX.exec\<close> in a while loop\<close>

text \<open>
  \<open>lazy_inner acc cs\<close> is the lazy group \<open>([^\]]+?)\<close> followed by \<open>\]\]\<close>: it consumes one
  code unit of the class \<open>[^\]]\<close>, tries the closing \<open>]]\<close>, and only when that fails
  extends the group by one more code unit. \<open>acc\<close> holds what the group has consumed.
\<close>

fun lazy_inner :: "jstr \<Rightarrow> jstr \<Rightarrow> jstr option" where
  "lazy_inner acc [] = None"
| "lazy_inner acc (c # cs) =
     (if c = RB then None
      else if take 2 cs = [RB, RB] then Some (acc @ [c])
      else lazy_inner (acc @ [c]) cs)"

text \<open>One attempt of the whole pattern at the head of \<open>xs\<close>; the result is capture group 1.\<close>

definition match_at :: "jstr \<Rightarrow> jstr option" where
  "match_at xs = (if take 2 xs = [LB, LB] then lazy_inner [] (drop 2 xs) else None)"

record rx_match =
  index :: nat
  fullMatch :: jstr
  inner :: jstr

text \<open>
  \<open>exec_loop i xs\<close> lists the matches that successive \<open>REGEX.exec\<close> calls return until
  \<open>null\<close>, where \<open>xs\<close> is the text from \<open>lastIndex = i\<close> on. A failed attempt moves one
  code unit to the right; a match sets \<open>lastIndex\<close> to its end.
\<close>

function exec_loop :: "nat \<Rightarrow> jstr \<Rightarrow> rx_match list" where
  "exec_loop i [] = []"
| "exec_loop i (x # xs) =
     (case match_at (x # xs) of
        None \<Rightarrow> exec_loop (Suc i) xs
      | Some inn \<Rightarrow>
          \<lparr>index = i, fullMatch = take (length inn + 4) (x # xs), inner = inn\<rparr>
            # exec_loop (i + (length inn + 4)) (drop (length inn + 4) (x # xs)))"
  by pat_completeness auto
termination
  by (relation "measure (\<lambda>(i, xs). length xs)") auto

section \<open>The Rewriter: \<open>handleEditorChange\<close>\<close>

text \<open>
  What \<open>metadataCache.getFirstLinkpathDest(inner, activeFile.path)\<close> can do: throw, return
  \<open>null\<close>, return an object that is not a \<open>TFile\<close> (a folder), or return a \<open>TFile\<close> with
  its \<open>path\<close>.
\<close>

datatype dest = Throws | Null | NotTFile | TFile jstr

text \<open>\<open>dest.path.replace(/\.md$/, '')\<close>: a final \<open>.md\<close> is removed.\<close>

definition stripMd :: "jstr \<Rightarrow> jstr" where
  "stripMd p =
     (if 3 \<le> length p \<and> drop (length p - 3) p = utf16 ''.md''
      then take (length p - 3) p else p)"

record repl =
  start :: nat
  endIndex :: nat
  replacement :: jstr

text \<open>What the outer \<open>catch\<close> can receive, named after the call that threw.\<close>

datatype fault = ActiveFileFault | ReadFault | ResolveFault | WriteFault | CursorFault

text \<open>
  The body of the scanning loop, over the matches in scan order. \<open>Inl\<close> is an exception
  leaving the loop; \<open>Inr\<close> is the array \<open>replacements\<close> when the loop ends.
\<close>

fun replacements :: "(jstr \<Rightarrow> jstr \<Rightarrow> dest) \<Rightarrow> jstr \<Rightarrow> rx_match list \<Rightarrow> fault + repl list" where
  "replacements resolve path [] = Inr []"
| "replacements resolve path (m # ms) =
     (if SLASH \<in> set (inner m) then replacements resolve path ms
      else case resolve (inner m) path of
          Throws \<Rightarrow> Inl ResolveFault
        | Null \<Rightarrow> replacements resolve path ms
        | NotTFile \<Rightarrow> replacements resolve path ms
        | TFile p \<Rightarrow>
            (let fullPathNoExt = stripMd p;
                 rtext = [LB, LB] @ fullPathNoExt @ [RB, RB]
             in if rtext \<noteq> fullMatch m
                then (case replacements resolve path ms of
                        Inl e \<Rightarrow> Inl e
                      | Inr rs \<Rightarrow>
                          Inr (\<lparr>start = index m,
                                endIndex = index m + length (fullMatch m),
                                replacement = rtext\<rparr> # rs))
                else replacements resolve path ms))"

text \<open>\<open>replacements.sort((a, b) => b.start - a.start)\<close>: a stable sort, descending by start.\<close>

definition sortDesc :: "repl list \<Rightarrow> repl list" where
  "sortDesc rs = sort_key (\<lambda>r. - int (start r)) rs"

text \<open>\<open>newContent.slice(0, r.start) + r.replacement + newContent.slice(r.end)\<close>\<close>

definition applyRepl :: "jstr \<Rightarrow> repl \<Rightarrow> jstr" where
  "applyRepl nc r = take (start r) nc @ replacement r @ drop (endIndex r) nc"

definition newContent :: "jstr \<Rightarrow> repl list \<Rightarrow> jstr" where
  "newContent original rs = foldl applyRepl original (sortDesc rs)"

text \<open>The loop computing \<open>deltaBefore\<close>, over the sorted array.\<close>

definition deltaBefore :: "int \<Rightarrow> repl list \<Rightarrow> int" where
  "deltaBefore primaryOffset rs =
     foldl (\<lambda>d r. if int (start r) < primaryOffset
                   then d + (int (length (replacement r)) - (int (endIndex r) - int (start r)))
                   else d) 0 rs"

definition newOffset :: "int \<Rightarrow> repl list \<Rightarrow> jstr \<Rightarrow> int" where
  "newOffset primaryOffset rs nc =
     (let n0 = primaryOffset + deltaBefore primaryOffset rs;
          n1 = (if n0 < 0 then 0 else n0)
      in if n1 > int (length nc) then int (length nc) else n1)"

text \<open>
  The editor as the function sees it: \<open>editor.getValue()\<close> and
  \<open>editor.posToOffset(editor.getCursor())\<close>.
\<close>

record editor =
  doc :: jstr
  cursor :: int

text \<open>
  What \<open>editor.setValue(newContent)\<close> can do: write the text and return, throw without
  having written, or throw after having written.
\<close>

datatype written = Written | ThrewUnwritten | ThrewWritten

text \<open>
  The host, call by call in the order of the \<open>try\<close> block: whether \<open>getActiveFile()\<close>
  throws and the active file's path when it returns (\<open>None\<close> for \<open>null\<close>); whether reading
  the editor (\<open>getValue\<close>, \<open>getCursor\<close>, \<open>posToOffset\<close>) throws; the link index; what
  \<open>editor.setValue\<close> does for the editor before and the new text, and where it leaves the
  cursor; whether \<open>editor.setCursor(editor.offsetToPos(n))\<close> throws on a document for an
  offset.
\<close>

record host =
  getActiveFileThrows :: bool
  activeFile :: "jstr option"
  editorReadThrows :: bool
  getFirstLinkpathDest :: "jstr \<Rightarrow> jstr \<Rightarrow> dest"
  setValueDoes :: "editor \<Rightarrow> jstr \<Rightarrow> written"
  setCursorThrows :: "jstr \<Rightarrow> int \<Rightarrow> bool"
  setValueCursor :: "editor \<Rightarrow> jstr \<Rightarrow> int"

definition setValue :: "host \<Rightarrow> editor \<Rightarrow> jstr \<Rightarrow> editor" where
  "setValue h ed t = ed\<lparr>doc := t, cursor := setValueCursor h ed t\<rparr>"

text \<open>
  The result is the editor afterwards and what the outer \<open>catch\<close> logged with
  \<open>console.error\<close>, if it ran.
\<close>

definition handleEditorChange :: "host \<Rightarrow> editor \<Rightarrow> editor \<times> fault option" where
  "handleEditorChange h ed =
     (if getActiveFileThrows h then (ed, Some ActiveFileFault)
      else case activeFile h of
        None \<Rightarrow> (ed, None)
      | Some path \<Rightarrow>
          if editorReadThrows h then (ed, Some ReadFault)
          else
          (let original = doc ed;
               primaryOffset = cursor ed
           in case replacements (getFirstLinkpathDest h) path (exec_loop 0 original) of
                Inl e \<Rightarrow> (ed, Some e)
              | Inr rs \<Rightarrow>
                  (let nc = newContent original rs;
                       changed = (rs \<noteq> [])
                   in if changed \<and> nc \<noteq> original
                      then (case setValueDoes h ed nc of
                              ThrewUnwritten \<Rightarrow> (ed, Some WriteFault)
                            | ThrewWritten \<Rightarrow> (setValue h ed nc, Some WriteFault)
                            | Written \<Rightarrow>
                                (let ed1 = setValue h ed nc;
                                     n = newOffset primaryOffset (sortDesc rs) nc
                                 in if \<not> setCursorThrows h nc n
                                    then (ed1\<lparr>cursor := n\<rparr>, None)
                                    else if \<not> setCursorThrows h nc (int (length nc))
                                    then (ed1\<lparr>cursor := int (length nc)\<rparr>, None)
                                    else (ed1, Some CursorFault)))
                      else (ed, None))))"

text \<open>A host none of whose calls throws before the cursor is placed.\<close>

definition hostCallsReturn :: "host \<Rightarrow> bool" where
  "hostCallsReturn h \<longleftrightarrow>
     \<not> getActiveFileThrows h \<and> \<not> editorReadThrows h \<and> (\<forall>e t. setValueDoes h e t = Written)"

section \<open>The Concealer: \<open>buildDecorations\<close>\<close>

text \<open>\<open>inner.lastIndexOf('/')\<close>: the last index of the code unit, \<open>-1\<close> when there is none.\<close>

fun lastIndexOf :: "unit16 \<Rightarrow> jstr \<Rightarrow> int" where
  "lastIndexOf c [] = - 1"
| "lastIndexOf c (x # xs) =
     (let r = lastIndexOf c xs
      in if 0 \<le> r then r + 1 else if x = c then 0 else - 1)"

text \<open>\<open>text.slice(from, to)\<close> for offsets \<open>from\<close>, \<open>to\<close> that are not negative.\<close>

definition slice_str :: "jstr \<Rightarrow> nat \<Rightarrow> nat \<Rightarrow> jstr" where
  "slice_str t wfrom wto = take (wto - wfrom) (drop wfrom t)"

text \<open>
  The body of the inner loop for one match of the window that starts at \<open>wfrom\<close>: the
  arguments \<open>(innerStart, prefixEnd)\<close> of \<open>builder.add\<close>, or nothing after \<open>continue\<close>.
\<close>

definition decorate :: "nat \<Rightarrow> rx_match \<Rightarrow> (nat \<times> nat) list" where
  "decorate wfrom m =
     (if SLASH \<notin> set (inner m) then []
      else (let start0 = wfrom + index m;
                innerStart = start0 + 2;
                lastSlashInInner = lastIndexOf SLASH (inner m);
                prefixEnd = nat (int innerStart + lastSlashInInner + 1)
            in [(innerStart, prefixEnd)]))"

text \<open>
  The ranges in the order \<open>builder.add\<close> receives them; \<open>Decoration.none\<close> is the empty
  list. \<open>visibleRanges\<close> holds the pairs \<open>(from, to)\<close>.
\<close>

definition buildDecorations :: "bool \<Rightarrow> jstr \<Rightarrow> (nat \<times> nat) list \<Rightarrow> (nat \<times> nat) list" where
  "buildDecorations displayAsShortName t visibleRanges =
     (if \<not> displayAsShortName then []
      else concat (map (\<lambda>(wfrom, wto).
                          concat (map (decorate wfrom) (exec_loop 0 (slice_str t wfrom wto))))
                       visibleRanges))"

section \<open>Auxiliary notions for the proofs\<close>

text \<open>
  What the loop body decides for a match with capture group \<open>inn\<close> when the resolver does
  not throw: \<open>Some\<close> replacement text, or \<open>None\<close> when the match is left alone.
\<close>

definition decide :: "(jstr \<Rightarrow> jstr \<Rightarrow> dest) \<Rightarrow> jstr \<Rightarrow> jstr \<Rightarrow> jstr option" where
  "decide resolve path inn =
     (if SLASH \<in> set inn then None
      else case resolve inn path of
          TFile p \<Rightarrow>
            (let rtext = [LB, LB] @ stripMd p @ [RB, RB]
             in if rtext \<noteq> [LB, LB] @ inn @ [RB, RB] then Some rtext else None)
        | _ \<Rightarrow> None)"

text \<open>
  The text rebuilt from left to right along the scan, each match replaced by what \<open>d\<close>
  decides. The splices applied in descending order produce this text (lemma
  \<open>newContent_rewritten\<close>).
\<close>

function rewritten :: "(jstr \<Rightarrow> jstr option) \<Rightarrow> jstr \<Rightarrow> jstr" where
  "rewritten d [] = []"
| "rewritten d (x # xs) =
     (case match_at (x # xs) of
        None \<Rightarrow> x # rewritten d xs
      | Some inn \<Rightarrow>
          (case d inn of None \<Rightarrow> [LB, LB] @ inn @ [RB, RB] | Some r \<Rightarrow> r)
            @ rewritten d (drop (length inn + 4) (x # xs)))"
  by pat_completeness auto
termination
  by (relation "measure (\<lambda>(d, xs). length xs)") auto

text \<open>The entry pushed to \<open>replacements\<close> for a match and its replacement text.\<close>

definition opFor :: "rx_match \<Rightarrow> jstr \<Rightarrow> repl" where
  "opFor m r = \<lparr>start = index m, endIndex = index m + length (fullMatch m), replacement = r\<rparr>"

text \<open>The change of length one replacement causes.\<close>

definition delta :: "repl \<Rightarrow> int" where
  "delta r = int (length (replacement r)) - (int (endIndex r) - int (start r))"

text \<open>The number of closing brackets in a text.\<close>

definition cntRB :: "jstr \<Rightarrow> nat" where
  "cntRB xs = length (filter (\<lambda>c. c = RB) xs)"

text \<open>The ranges one window contributes to \<open>buildDecorations\<close>.\<close>

definition windowRanges :: "jstr \<Rightarrow> nat \<times> nat \<Rightarrow> (nat \<times> nat) list" where
  "windowRanges t w = concat (map (decorate (fst w)) (exec_loop 0 (slice_str t (fst w) (snd w))))"

section \<open>Example inputs\<close>

text \<open>
  The note \<open>n.md\<close> is open, the link index knows \<open>Project\<close> as
  \<open>areas/work/Project.md\<close> and nothing else, and the editor never throws.
\<close>

definition exampleA_host :: host where
  "exampleA_host =
     \<lparr>getActiveFileThrows = False,
      activeFile = Some (utf16 ''n.md''),
      editorReadThrows = False,
      getFirstLinkpathDest =
        (\<lambda>s c. if s = utf16 ''Project'' then TFile (utf16 ''areas/work/Project.md'') else Null),
      setValueDoes = (\<lambda>e t. Written),
      setCursorThrows = (\<lambda>t n. False),
      setValueCursor = (\<lambda>e t. 0)\<rparr>"

definition exampleA_editor :: editor where
  "exampleA_editor = \<lparr>doc = utf16 ''See [[Project]] for details.'', cursor = 20\<rparr>"

text \<open>The same document with the cursor just before the reference.\<close>

definition exampleA_editor_at4 :: editor where
  "exampleA_editor_at4 = \<lparr>doc = utf16 ''See [[Project]] for details.'', cursor = 4\<rparr>"

text \<open>A link index that throws for \<open>Broken\<close>, and a document that refers to it.\<close>

definition broken_host :: host where
  "broken_host =
     \<lparr>getActiveFileThrows = False,
      activeFile = Some (utf16 ''n.md''),
      editorReadThrows = False,
      getFirstLinkpathDest =
        (\<lambda>s c. if s = utf16 ''Project'' then TFile (utf16 ''areas/work/Project.md'')
               else if s = utf16 ''Broken'' then Throws else Null),
      setValueDoes = (\<lambda>e t. Written),
      setCursorThrows = (\<lambda>t n. False),
      setValueCursor = (\<lambda>e t. 0)\<rparr>"

definition broken_editor :: editor where
  "broken_editor = \<lparr>doc = utf16 ''[[Project]] and [[Broken]]'', cursor = 3\<rparr>"

text \<open>
  An editor whose \<open>setCursor\<close> throws for every offset but the end of the document, and an
  editor whose \<open>setCursor\<close> always throws.
\<close>

definition fallback_host :: host where
  "fallback_host = exampleA_host\<lparr>setCursorThrows := (\<lambda>t n. n \<noteq> int (length t))\<rparr>"

definition stuck_host :: host where
  "stuck_host = exampleA_host\<lparr>setCursorThrows := (\<lambda>t n. True)\<rparr>"

text \<open>
  Hosts whose \<open>getActiveFile\<close> throws, whose editor cannot be read, and whose \<open>setValue\<close>
  throws before or after it has written.
\<close>

definition no_workspace_host :: host where
  "no_workspace_host = exampleA_host\<lparr>getActiveFileThrows := True\<rparr>"

definition unreadable_host :: host where
  "unreadable_host = exampleA_host\<lparr>editorReadThrows := True\<rparr>"

definition readonly_host :: host where
  "readonly_host = exampleA_host\<lparr>setValueDoes := (\<lambda>e t. ThrewUnwritten)\<rparr>"

definition halfway_host :: host where
  "halfway_host = exampleA_host\<lparr>setValueDoes := (\<lambda>e t. ThrewWritten)\<rparr>"

text \<open>A document with a short reference, a full-path reference and an unknown name.\<close>

definition mixed_doc :: jstr where
  "mixed_doc = utf16 ''[[Project]] [[areas/old/Project]] [[Nowhere]]''"

definition mixed_editor :: editor where
  "mixed_editor = \<lparr>doc = mixed_doc, cursor = 0\<rparr>"

text \<open>Documents for the Concealer: one full-path reference; several references seen
  through two windows; a bracketed span with a single closing bracket inside.\<close>

definition exampleC_doc :: jstr where
  "exampleC_doc = utf16 ''Link: [[areas/work/Project]]''"

definition two_window_doc :: jstr where
  "two_window_doc = utf16 ''[[a/b]] [[c]] [[d/e/f]] gap [[g/h]]''"

definition stray_doc :: jstr where
  "stray_doc = utf16 ''[[a]b/c]] [[d/e]]''"

text \<open>
  A vault with the notes \<open>x.md\<close> and \<open>x.md.md\<close> at its root: each name resolves to the
  file of that path, and \<open>x\<close> to \<open>x.md\<close>.
\<close>

definition double_ext_host :: host where
  "double_ext_host =
     \<lparr>getActiveFileThrows = False,
      activeFile = Some (utf16 ''n.md''),
      editorReadThrows = False,
      getFirstLinkpathDest =
        (\<lambda>s c. if s = utf16 ''x.md.md'' then TFile (utf16 ''x.md.md'')
               else if s = utf16 ''x.md'' then TFile (utf16 ''x.md'')
               else if s = utf16 ''x'' then TFile (utf16 ''x.md'')
               else Null),
      setValueDoes = (\<lambda>e t. Written),
      setCursorThrows = (\<lambda>t n. False),
      setValueCursor = (\<lambda>e t. 0)\<rparr>"

definition double_ext_editor :: editor where
  "double_ext_editor = \<lparr>doc = utf16 ''[[x.md.md]]'', cursor = 0\<rparr>"

text \<open>
  A vault with the note \<open>Note.md\<close> at its root, which the link index finds under either
  spelling, and a document that refers to it.
\<close>

definition root_host :: host where
  "root_host =
     \<lparr>getActiveFileThrows = False,
      activeFile = Some (utf16 ''n.md''),
      editorReadThrows = False,
      getFirstLinkpathDest =
        (\<lambda>s c. if s = utf16 ''note'' \<or> s = utf16 ''Note'' then TFile (utf16 ''Note.md'') else Null),
      setValueDoes = (\<lambda>e t. Written),
      setCursorThrows = (\<lambda>t n. False),
      setValueCursor = (\<lambda>e t. 0)\<rparr>"

definition root_editor :: editor where
  "root_editor = \<lparr>doc = utf16 ''See [[note]].'', cursor = 0\<rparr>"

section \<open>What a match is\<close>

lemma lazy_inner_Some:
  "lazy_inner acc cs = Some r \<Longrightarrow>
     \<exists>u rest. r = acc @ u \<and> u \<noteq> [] \<and> RB \<notin> set u \<and> cs = u @ [RB, RB] @ rest"
proof (induction cs arbitrary: acc)
  case Nil
  then show ?case by simp
next
  case (Cons c cs)
  show ?case
  proof (cases "take 2 cs = [RB, RB]")
    case True
    with Cons.prems have c: "c \<noteq> RB" and r: "r = acc @ [c]"
      by (auto split: if_splits)
    from True have "cs = [RB, RB] @ drop 2 cs"
      by (metis append_take_drop_id)
    with c r show ?thesis
      by (intro exI[of _ "[c]"] exI[of _ "drop 2 cs"]) simp
  next
    case False
    with Cons.prems have c: "c \<noteq> RB" and rec: "lazy_inner (acc @ [c]) cs = Some r"
      by (auto split: if_splits)
    from Cons.IH[OF rec] obtain u rest
      where u: "r = (acc @ [c]) @ u" "u \<noteq> []" "RB \<notin> set u" "cs = u @ [RB, RB] @ rest"
      by blast
    with c show ?thesis
      by (intro exI[of _ "c # u"] exI[of _ rest]) simp
  qed
qed

lemma lazy_inner_run:
  "u \<noteq> [] \<Longrightarrow> RB \<notin> set u \<Longrightarrow> lazy_inner acc (u @ [RB, RB] @ rest) = Some (acc @ u)"
proof (induction u arbitrary: acc)
  case Nil
  then show ?case by simp
next
  case (Cons c u)
  show ?case
  proof (cases u)
    case Nil
    with Cons.prems show ?thesis by simp
  next
    case (Cons d u')
    with Cons.prems Cons.IH[of "acc @ [c]"] show ?thesis by simp
  qed
qed

lemma match_at_Some_iff:
  "match_at xs = Some inn \<longleftrightarrow>
     inn \<noteq> [] \<and> RB \<notin> set inn \<and> (\<exists>rest. xs = [LB, LB] @ inn @ [RB, RB] @ rest)"
proof
  assume m: "match_at xs = Some inn"
  then have t: "take 2 xs = [LB, LB]" and l: "lazy_inner [] (drop 2 xs) = Some inn"
    by (auto simp: match_at_def split: if_splits)
  from lazy_inner_Some[OF l] obtain rest
    where "inn \<noteq> []" "RB \<notin> set inn" "drop 2 xs = inn @ [RB, RB] @ rest"
    by auto
  moreover have "xs = take 2 xs @ drop 2 xs" by simp
  ultimately show "inn \<noteq> [] \<and> RB \<notin> set inn \<and> (\<exists>rest. xs = [LB, LB] @ inn @ [RB, RB] @ rest)"
    using t by metis
next
  assume "inn \<noteq> [] \<and> RB \<notin> set inn \<and> (\<exists>rest. xs = [LB, LB] @ inn @ [RB, RB] @ rest)"
  then obtain rest where a: "inn \<noteq> []" "RB \<notin> set inn" and xs: "xs = [LB, LB] @ inn @ [RB, RB] @ rest"
    by blast
  from lazy_inner_run[OF a, of "[]" rest] xs show "match_at xs = Some inn"
    by (simp add: match_at_def)
qed

lemma match_at_Nil [simp]: "match_at [] = None"
  by (simp add: match_at_def)

lemma match_at_decomp:
  assumes "match_at xs = Some inn"
  shows "take (length inn + 4) xs = [LB, LB] @ inn @ [RB, RB]"
    and "xs = ([LB, LB] @ inn @ [RB, RB]) @ drop (length inn + 4) xs"
    and "length inn + 4 \<le> length xs"
proof -
  define A where "A = [LB, LB] @ inn @ [RB, RB]"
  from assms obtain rest where xs: "xs = A @ rest"
    by (auto simp: match_at_Some_iff A_def)
  have len: "length inn + 4 = length A"
    by (simp add: A_def)
  show "take (length inn + 4) xs = [LB, LB] @ inn @ [RB, RB]"
    unfolding len xs by (simp add: A_def)
  show "xs = ([LB, LB] @ inn @ [RB, RB]) @ drop (length inn + 4) xs"
    unfolding len by (simp add: xs A_def)
  show "length inn + 4 \<le> length xs"
    unfolding len xs by simp
qed

lemma exec_loop_match:
  assumes "match_at xs = Some inn"
  shows "exec_loop i xs =
           \<lparr>index = i, fullMatch = [LB, LB] @ inn @ [RB, RB], inner = inn\<rparr>
             # exec_loop (i + (length inn + 4)) (drop (length inn + 4) xs)"
proof (cases xs)
  case Nil
  with assms show ?thesis by simp
next
  case (Cons x xs')
  with assms match_at_decomp(1)[OF assms] show ?thesis by simp
qed

lemma rewritten_match:
  assumes "match_at xs = Some inn"
  shows "rewritten d xs =
           (case d inn of None \<Rightarrow> [LB, LB] @ inn @ [RB, RB] | Some r \<Rightarrow> r)
             @ rewritten d (drop (length inn + 4) xs)"
proof (cases xs)
  case Nil
  with assms show ?thesis by simp
next
  case (Cons x xs')
  with assms show ?thesis by simp
qed

lemma exec_loop_sound:
  "m \<in> set (exec_loop i xs) \<Longrightarrow>
     i \<le> index m \<and> fullMatch m = [LB, LB] @ inner m @ [RB, RB] \<and> inner m \<noteq> [] \<and>
     RB \<notin> set (inner m) \<and>
     (\<exists>pre rest. xs = pre @ fullMatch m @ rest \<and> i + length pre = index m)"
proof (induction i xs rule: exec_loop.induct)
  case (1 i)
  then show ?case by simp
next
  case (2 i x xs)
  show ?case
  proof (cases "match_at (x # xs)")
    case None
    with "2.prems" have "m \<in> set (exec_loop (Suc i) xs)" by simp
    from "2.IH"(1)[OF None this] obtain pre rest
      where a: "Suc i \<le> index m" "fullMatch m = [LB, LB] @ inner m @ [RB, RB]"
        "inner m \<noteq> []" "RB \<notin> set (inner m)"
        and b: "xs = pre @ fullMatch m @ rest" "Suc i + length pre = index m"
      by blast
    from b have "x # xs = (x # pre) @ fullMatch m @ rest \<and> i + length (x # pre) = index m"
      by simp
    with a show ?thesis by (metis Suc_leD)
  next
    case (Some inn)
    define A where "A = [LB, LB] @ inn @ [RB, RB]"
    define rest0 where "rest0 = drop (length inn + 4) (x # xs)"
    define m0 where "m0 = \<lparr>index = i, fullMatch = A, inner = inn\<rparr>"
    have xs: "x # xs = A @ rest0"
      using match_at_decomp(2)[OF Some] unfolding A_def rest0_def .
    have lenA: "length inn + 4 = length A"
      by (simp add: A_def)
    from "2.prems" exec_loop_match[OF Some, of i]
    consider "m = m0" | "m \<in> set (exec_loop (i + (length inn + 4)) rest0)"
      unfolding m0_def A_def rest0_def by auto
    then show ?thesis
    proof cases
      case 1
      from Some have "inn \<noteq> []" "RB \<notin> set inn" by (auto simp: match_at_Some_iff)
      moreover have "x # xs = [] @ A @ rest0" using xs by simp
      ultimately show ?thesis
        unfolding 1 m0_def by (auto simp: A_def)
    next
      case 2
      from "2.IH"(2)[OF Some] 2 obtain pre rest
        where a: "i + (length inn + 4) \<le> index m" "fullMatch m = [LB, LB] @ inner m @ [RB, RB]"
          "inner m \<noteq> []" "RB \<notin> set (inner m)"
          and b: "rest0 = pre @ fullMatch m @ rest" "i + (length inn + 4) + length pre = index m"
        unfolding rest0_def by blast
      from xs b(1) have "x # xs = (A @ pre) @ fullMatch m @ rest"
        by simp
      moreover have "i + length (A @ pre) = index m"
        using b(2) lenA by simp
      moreover have "i \<le> index m" using a(1) by simp
      ultimately show ?thesis using a(2-4) by blast
    qed
  qed
qed

lemma exec_loop_ordered:
  "sorted_wrt (\<lambda>a b. index a + length (fullMatch a) \<le> index b) (exec_loop i xs)"
proof (induction i xs rule: exec_loop.induct)
  case (1 i)
  then show ?case by simp
next
  case (2 i x xs)
  show ?case
  proof (cases "match_at (x # xs)")
    case None
    with "2.IH"(1) show ?thesis by simp
  next
    case (Some inn)
    have "\<forall>m \<in> set (exec_loop (i + (length inn + 4)) (drop (length inn + 4) (x # xs))).
            i + length ([LB, LB] @ inn @ [RB, RB]) \<le> index m"
      using exec_loop_sound by fastforce
    with "2.IH"(2)[OF Some] show ?thesis
      unfolding exec_loop_match[OF Some] by (simp del: exec_loop.simps)
  qed
qed

section \<open>The array of replacements\<close>

lemma replacements_Cons_cases:
  assumes "replacements res path (m # ms) = Inr rs"
    and "fullMatch m = [LB, LB] @ inner m @ [RB, RB]"
  shows "(decide res path (inner m) = None \<and> replacements res path ms = Inr rs) \<or>
         (\<exists>r rs'. decide res path (inner m) = Some r \<and> replacements res path ms = Inr rs' \<and>
                   rs = opFor m r # rs')"
proof (cases "SLASH \<in> set (inner m)")
  case True
  with assms show ?thesis by (simp add: decide_def)
next
  case False
  show ?thesis
  proof (cases "res (inner m) path")
    case Throws
    with False assms show ?thesis by simp
  next
    case Null
    with False assms show ?thesis by (simp add: decide_def)
  next
    case NotTFile
    with False assms show ?thesis by (simp add: decide_def)
  next
    case (TFile p)
    show ?thesis
    proof (cases "[LB, LB] @ stripMd p @ [RB, RB] = fullMatch m")
      case True
      with False TFile assms show ?thesis by (simp add: decide_def)
    next
      case ne: False
      with False TFile assms(1) obtain rs'
        where "replacements res path ms = Inr rs'"
          and "rs = opFor m ([LB, LB] @ stripMd p @ [RB, RB]) # rs'"
        by (auto simp: opFor_def Let_def split: sum.splits)
      moreover from ne False TFile assms(2)
      have "decide res path (inner m) = Some ([LB, LB] @ stripMd p @ [RB, RB])"
        by (simp add: decide_def)
      ultimately show ?thesis by blast
    qed
  qed
qed

lemma insort_key_last:
  "\<forall>y \<in> set ys. f y < f x \<Longrightarrow> insort_key f x ys = ys @ [x]"
  by (induction ys) auto

lemma sortDesc_rev:
  "sorted_wrt (\<lambda>a b. start a < start b) rs \<Longrightarrow> sortDesc rs = rev rs"
proof (induction rs)
  case Nil
  then show ?case by (simp add: sortDesc_def)
next
  case (Cons r rs)
  then have "sortDesc rs = rev rs" by simp
  moreover from Cons.prems have "\<forall>y \<in> set (rev rs). - int (start y) < - int (start r)"
    by simp
  ultimately show ?case
    by (simp add: sortDesc_def insort_key_last)
qed

lemma replacements_from_matches:
  assumes "replacements res path ms = Inr rs"
    and "\<forall>m \<in> set ms. fullMatch m = [LB, LB] @ inner m @ [RB, RB]"
    and "r \<in> set rs"
  shows "\<exists>m \<in> set ms. \<exists>t. decide res path (inner m) = Some t \<and> r = opFor m t"
  using assms
proof (induction ms arbitrary: rs)
  case Nil
  then show ?case by simp
next
  case (Cons m ms)
  from replacements_Cons_cases[OF Cons.prems(1)] Cons.prems(2)
  consider "replacements res path ms = Inr rs"
    | t rs' where "decide res path (inner m) = Some t" "replacements res path ms = Inr rs'"
        "rs = opFor m t # rs'"
    by auto
  then show ?case
  proof cases
    case 1
    from Cons.IH[OF 1] Cons.prems(2,3) show ?thesis by auto
  next
    case 2
    show ?thesis
    proof (cases "r = opFor m t")
      case True
      with 2(1) show ?thesis by auto
    next
      case False
      with 2(3) Cons.prems(3) have "r \<in> set rs'" by simp
      from Cons.IH[OF 2(2) _ this] Cons.prems(2) show ?thesis by auto
    qed
  qed
qed

lemma replacements_sorted:
  assumes "replacements res path ms = Inr rs"
    and "\<forall>m \<in> set ms. fullMatch m = [LB, LB] @ inner m @ [RB, RB]"
    and "sorted_wrt (\<lambda>a b. index a + length (fullMatch a) \<le> index b) ms"
  shows "sorted_wrt (\<lambda>a b. endIndex a \<le> start b) rs"
  using assms
proof (induction ms arbitrary: rs)
  case Nil
  then show ?case by simp
next
  case (Cons m ms)
  from replacements_Cons_cases[OF Cons.prems(1)] Cons.prems(2)
  consider "replacements res path ms = Inr rs"
    | t rs' where "decide res path (inner m) = Some t" "replacements res path ms = Inr rs'"
        "rs = opFor m t # rs'"
    by auto
  then show ?case
  proof cases
    case 1
    from Cons.IH[OF 1] Cons.prems(2,3) show ?thesis by simp
  next
    case 2
    from Cons.IH[OF 2(2)] Cons.prems(2,3) have s: "sorted_wrt (\<lambda>a b. endIndex a \<le> start b) rs'"
      by simp
    have "\<forall>r \<in> set rs'. endIndex (opFor m t) \<le> start r"
    proof
      fix r assume "r \<in> set rs'"
      from replacements_from_matches[OF 2(2) _ this] Cons.prems(2)
      obtain m' t' where "m' \<in> set ms" "r = opFor m' t'" by auto
      with Cons.prems(3) show "endIndex (opFor m t) \<le> start r"
        by (auto simp: opFor_def)
    qed
    with s 2(3) show ?thesis by simp
  qed
qed

lemma resolver_throw_iff:
  "replacements res path ms = Inl ResolveFault \<longleftrightarrow>
     (\<exists>m \<in> set ms. SLASH \<notin> set (inner m) \<and> res (inner m) path = Throws)"
proof (induction ms)
  case Nil
  then show ?case by simp
next
  case (Cons m ms)
  show ?case
  proof (cases "SLASH \<in> set (inner m)")
    case True
    with Cons show ?thesis by auto
  next
    case False
    with Cons show ?thesis
      by (cases "res (inner m) path") (auto simp: Let_def split: sum.splits)
  qed
qed

lemma replacements_fault: "replacements res path ms = Inl e \<Longrightarrow> e = ResolveFault"
proof (induction ms)
  case Nil
  then show ?case by simp
next
  case (Cons m ms)
  then show ?case
    by (auto simp: Let_def split: if_splits dest.splits sum.splits)
qed

section \<open>The splices rebuild the text along the scan\<close>

lemma exec_loop_wf:
  "\<forall>m \<in> set (exec_loop i xs). fullMatch m = [LB, LB] @ inner m @ [RB, RB]"
  using exec_loop_sound by blast

lemma replacements_exec_match:
  assumes m: "match_at xs = Some inn"
    and r: "replacements res path (exec_loop i xs) = Inr rs"
  shows "(decide res path inn = None \<and>
          replacements res path (exec_loop (i + (length inn + 4)) (drop (length inn + 4) xs)) = Inr rs) \<or>
         (\<exists>t rs'. decide res path inn = Some t \<and>
            replacements res path (exec_loop (i + (length inn + 4)) (drop (length inn + 4) xs)) = Inr rs' \<and>
            rs = \<lparr>start = i, endIndex = i + (length inn + 4), replacement = t\<rparr> # rs')"
proof -
  define m0 where "m0 = \<lparr>index = i, fullMatch = [LB, LB] @ inn @ [RB, RB], inner = inn\<rparr>"
  have e: "exec_loop i xs = m0 # exec_loop (i + (length inn + 4)) (drop (length inn + 4) xs)"
    unfolding m0_def by (rule exec_loop_match[OF m])
  have wf: "fullMatch m0 = [LB, LB] @ inner m0 @ [RB, RB]"
    by (simp add: m0_def)
  have op: "opFor m0 t = \<lparr>start = i, endIndex = i + (length inn + 4), replacement = t\<rparr>" for t
    by (simp add: opFor_def m0_def)
  have inn: "inner m0 = inn" by (simp add: m0_def)
  from replacements_Cons_cases[OF r[unfolded e] wf] show ?thesis
    unfolding op inn .
qed

lemma foldr_applyRepl_rewritten:
  "replacements res path (exec_loop i xs) = Inr rs \<Longrightarrow> length pre = i \<Longrightarrow>
     foldr (\<lambda>r nc. applyRepl nc r) rs (pre @ xs) = pre @ rewritten (decide res path) xs"
proof (induction i xs arbitrary: rs pre rule: exec_loop.induct)
  case (1 i)
  then show ?case by simp
next
  case (2 i x xs)
  show ?case
  proof (cases "match_at (x # xs)")
    case None
    with "2.prems"(1) have "replacements res path (exec_loop (Suc i) xs) = Inr rs" by simp
    from "2.IH"(1)[OF None this, of "pre @ [x]"] "2.prems"(2) None
    show ?thesis by simp
  next
    case (Some inn)
    define n where "n = length inn + 4"
    define A where "A = [LB, LB] @ inn @ [RB, RB]"
    define rest where "rest = drop n (x # xs)"
    have xs: "x # xs = A @ rest"
      using match_at_decomp(2)[OF Some] unfolding A_def rest_def n_def .
    have lenA: "length A = n" by (simp add: A_def n_def)
    have rw0: "rewritten (decide res path) (x # xs) =
              (case decide res path inn of None \<Rightarrow> A | Some r \<Rightarrow> r) @ rewritten (decide res path) rest"
      unfolding A_def rest_def n_def by (rule rewritten_match[OF Some])
    note rw = rw0[unfolded xs]
    have IH: "replacements res path (exec_loop (i + n) rest) = Inr rs' \<Longrightarrow>
              foldr (\<lambda>r nc. applyRepl nc r) rs' ((pre @ A) @ rest) = (pre @ A) @ rewritten (decide res path) rest" for rs'
      using "2.IH"(2)[OF Some, of rs' "pre @ A"] "2.prems"(2) lenA
      unfolding rest_def n_def by simp
    note step = replacements_exec_match[OF Some "2.prems"(1), folded n_def, folded rest_def]
    from step show ?thesis
    proof (elim disjE conjE exE)
      assume 1: "decide res path inn = None"
        "replacements res path (exec_loop (i + n) rest) = Inr rs"
      from IH[OF 1(2)] 1(1) show ?thesis
        unfolding xs rw by simp
    next
      fix t rs'
      assume 2: "decide res path inn = Some t"
        "replacements res path (exec_loop (i + n) rest) = Inr rs'"
        "rs = \<lparr>start = i, endIndex = i + n, replacement = t\<rparr> # rs'"
      have "applyRepl ((pre @ A) @ Z) \<lparr>start = i, endIndex = i + n, replacement = t\<rparr> = pre @ t @ Z" for Z
        using "2.prems"(2) lenA by (simp add: applyRepl_def)
      with IH[OF 2(2)] 2(1,3) show ?thesis
        unfolding xs rw by simp
    qed
  qed
qed

lemma replacements_exec_sorted:
  assumes "replacements res path (exec_loop i xs) = Inr rs"
  shows "sorted_wrt (\<lambda>a b. endIndex a \<le> start b) rs"
  using replacements_sorted[OF assms exec_loop_wf exec_loop_ordered] .

lemma replacements_exec_op:
  assumes "replacements res path (exec_loop i xs) = Inr rs" and "r \<in> set rs"
  shows "\<exists>m \<in> set (exec_loop i xs). \<exists>t. decide res path (inner m) = Some t \<and> r = opFor m t"
  using replacements_from_matches[OF assms(1) exec_loop_wf assms(2)] .

lemma replacements_exec_strict:
  assumes "replacements res path (exec_loop i xs) = Inr rs"
  shows "sorted_wrt (\<lambda>a b. start a < start b) rs"
proof -
  have lt: "start a < endIndex a" if "a \<in> set rs" for a
  proof -
    from replacements_exec_op[OF assms that] obtain m t
      where m: "m \<in> set (exec_loop i xs)" and a: "a = opFor m t" by blast
    from exec_loop_sound[OF m] have "0 < length (fullMatch m)" by simp
    with a show ?thesis by (simp add: opFor_def)
  qed
  show ?thesis
    by (rule sorted_wrt_mono_rel[OF _ replacements_exec_sorted[OF assms]]) (use lt in fastforce)
qed

lemma newContent_rewritten:
  assumes "replacements res path (exec_loop 0 t) = Inr rs"
  shows "newContent t rs = rewritten (decide res path) t"
proof -
  have "sortDesc rs = rev rs"
    by (rule sortDesc_rev[OF replacements_exec_strict[OF assms]])
  then have "newContent t rs = foldr (\<lambda>r nc. applyRepl nc r) rs ([] @ t)"
    by (simp add: newContent_def foldl_conv_foldr)
  also have "\<dots> = [] @ rewritten (decide res path) t"
    by (rule foldr_applyRepl_rewritten[OF assms]) simp
  finally show ?thesis by simp
qed

section \<open>Length changes, and a rewritten text differs\<close>

lemma foldl_delta:
  "foldl (\<lambda>d r. if int (start r) < c
                  then d + (int (length (replacement r)) - (int (endIndex r) - int (start r)))
                  else d) a rs
   = a + sum_list (map delta (filter (\<lambda>r. int (start r) < c) rs))"
  by (induction rs arbitrary: a) (auto simp: delta_def)

lemma deltaBefore_sum:
  "deltaBefore c rs = sum_list (map delta (filter (\<lambda>r. int (start r) < c) rs))"
  by (simp add: deltaBefore_def foldl_delta)

lemma sum_list_delta_rev:
  "sum_list (map delta (filter P (rev rs))) = sum_list (map delta (filter P rs))"
  by (induction rs) auto

lemma decide_Some:
  assumes "decide res path inn = Some t"
  shows "\<exists>p. res inn path = TFile p \<and> t = [LB, LB] @ stripMd p @ [RB, RB] \<and>
             t \<noteq> [LB, LB] @ inn @ [RB, RB] \<and> SLASH \<notin> set inn"
  using assms by (auto simp: decide_def Let_def split: if_splits dest.splits)

lemma cntRB_append [simp]: "cntRB (xs @ ys) = cntRB xs + cntRB ys"
  by (simp add: cntRB_def)

lemma cntRB_Cons [simp]: "cntRB (x # xs) = (if x = RB then 1 else 0) + cntRB xs"
  by (simp add: cntRB_def)

lemma cntRB_Nil [simp]: "cntRB [] = 0"
  by (simp add: cntRB_def)

lemma cntRB_zero: "cntRB xs = 0 \<longleftrightarrow> RB \<notin> set xs"
  by (induction xs) auto

lemma cntRB_rewritten:
  "cntRB xs \<le> cntRB (rewritten (decide res path) xs)"
proof (induction "decide res path" xs rule: rewritten.induct)
  case 1
  then show ?case by simp
next
  case (2 x xs)
  show ?case
  proof (cases "match_at (x # xs)")
    case None
    with 2(1) show ?thesis by simp
  next
    case (Some inn)
    define n where "n = length inn + 4"
    define A where "A = [LB, LB] @ inn @ [RB, RB]"
    define rest where "rest = drop n (x # xs)"
    have xs: "x # xs = A @ rest"
      using match_at_decomp(2)[OF Some] unfolding A_def rest_def n_def .
    have rw: "rewritten (decide res path) (x # xs) =
              (case decide res path inn of None \<Rightarrow> A | Some r \<Rightarrow> r) @ rewritten (decide res path) rest"
      unfolding A_def rest_def n_def by (rule rewritten_match[OF Some])
    have IH: "cntRB rest \<le> cntRB (rewritten (decide res path) rest)"
      using 2(2)[OF Some] unfolding rest_def n_def .
    from Some have "RB \<notin> set inn" by (simp add: match_at_Some_iff)
    then have cA: "cntRB A = 2" by (simp add: A_def cntRB_zero)
    have "2 \<le> cntRB t" if "decide res path inn = Some t" for t
      using decide_Some[OF that] by auto
    with cA have "cntRB A \<le> cntRB (case decide res path inn of None \<Rightarrow> A | Some r \<Rightarrow> r)"
      by (cases "decide res path inn") auto
    with IH show ?thesis
      unfolding rw by (simp add: xs)
  qed
qed

lemma run_unique:
  "RB \<notin> set u \<Longrightarrow> RB \<notin> set v \<Longrightarrow> u @ RB # a = v @ RB # b \<Longrightarrow> u = v"
proof (induction u arbitrary: v)
  case Nil
  then show ?case by (cases v) auto
next
  case (Cons c u)
  then show ?case by (cases v) auto
qed

lemma unchanged_no_ops:
  "replacements res path (exec_loop i xs) = Inr rs \<Longrightarrow>
   rewritten (decide res path) xs = xs \<Longrightarrow> rs = []"
proof (induction i xs arbitrary: rs rule: exec_loop.induct)
  case (1 i)
  then show ?case by simp
next
  case (2 i x xs)
  show ?case
  proof (cases "match_at (x # xs)")
    case None
    with "2.prems" "2.IH"(1)[OF None, of rs] show ?thesis by simp
  next
    case (Some inn)
    define n where "n = length inn + 4"
    define A where "A = [LB, LB] @ inn @ [RB, RB]"
    define rest where "rest = drop n (x # xs)"
    have xs: "x # xs = A @ rest"
      using match_at_decomp(2)[OF Some] unfolding A_def rest_def n_def .
    have rw0: "rewritten (decide res path) (x # xs) =
              (case decide res path inn of None \<Rightarrow> A | Some r \<Rightarrow> r) @ rewritten (decide res path) rest"
      unfolding A_def rest_def n_def by (rule rewritten_match[OF Some])
    from "2.prems"(2) rw0 xs
    have eq: "(case decide res path inn of None \<Rightarrow> A | Some r \<Rightarrow> r) @ rewritten (decide res path) rest
              = A @ rest"
      by simp
    from Some have inn: "RB \<notin> set inn" by (simp add: match_at_Some_iff)
    note step = replacements_exec_match[OF Some "2.prems"(1), folded n_def, folded rest_def]
    from step show ?thesis
    proof (elim disjE conjE exE)
      assume 1: "decide res path inn = None"
        "replacements res path (exec_loop (i + n) rest) = Inr rs"
      from eq 1(1) have "rewritten (decide res path) rest = rest" by simp
      from "2.IH"(2)[OF Some, folded n_def, folded rest_def, OF 1(2) this] show ?thesis .
    next
      fix t rs'
      assume 2: "decide res path inn = Some t"
        "replacements res path (exec_loop (i + n) rest) = Inr rs'"
        "rs = \<lparr>start = i, endIndex = i + n, replacement = t\<rparr> # rs'"
      from decide_Some[OF 2(1)] obtain p
        where t: "t = [LB, LB] @ stripMd p @ [RB, RB]" and ne: "t \<noteq> A"
        unfolding A_def by blast
      from eq 2(1) have e2: "t @ rewritten (decide res path) rest = A @ rest" by simp
      then have "cntRB t + cntRB (rewritten (decide res path) rest) = cntRB A + cntRB rest"
        by (metis cntRB_append)
      moreover have "cntRB A = 2" using inn by (simp add: A_def cntRB_zero)
      moreover have "cntRB t = 2 + cntRB (stripMd p)" by (simp add: t)
      moreover note cntRB_rewritten[of rest res path]
      ultimately have "cntRB (stripMd p) = 0" by linarith
      then have p: "RB \<notin> set (stripMd p)" by (simp add: cntRB_zero)
      from e2 have "stripMd p @ RB # (RB # rewritten (decide res path) rest) = inn @ RB # (RB # rest)"
        by (simp add: t A_def)
      from run_unique[OF p inn this] t ne have False by (simp add: A_def)
      then show ?thesis ..
    qed
  qed
qed

lemma first_op_fits:
  "replacements res path (exec_loop i xs) = Inr (r # rs) \<Longrightarrow>
   start r + length (replacement r) \<le> i + length (rewritten (decide res path) xs)"
proof (induction i xs rule: exec_loop.induct)
  case (1 i)
  then show ?case by simp
next
  case (2 i x xs)
  show ?case
  proof (cases "match_at (x # xs)")
    case None
    with "2.prems" "2.IH"(1)[OF None] show ?thesis by simp
  next
    case (Some inn)
    define n where "n = length inn + 4"
    define A where "A = [LB, LB] @ inn @ [RB, RB]"
    define rest where "rest = drop n (x # xs)"
    have lenA: "length A = n" by (simp add: A_def n_def)
    have rw0: "rewritten (decide res path) (x # xs) =
              (case decide res path inn of None \<Rightarrow> A | Some r \<Rightarrow> r) @ rewritten (decide res path) rest"
      unfolding A_def rest_def n_def by (rule rewritten_match[OF Some])
    note step = replacements_exec_match[OF Some "2.prems"(1), folded n_def, folded rest_def]
    from step show ?thesis
    proof (elim disjE conjE exE)
      assume 1: "decide res path inn = None"
        "replacements res path (exec_loop (i + n) rest) = Inr (r # rs)"
      from "2.IH"(2)[OF Some, folded n_def, folded rest_def, OF 1(2)] 1(1) lenA
      show ?thesis unfolding rw0 by simp
    next
      fix t rs'
      assume 2: "decide res path inn = Some t"
        "r # rs = \<lparr>start = i, endIndex = i + n, replacement = t\<rparr> # rs'"
      then show ?thesis unfolding rw0 by auto
    qed
  qed
qed

section \<open>The outcomes of \<open>handleEditorChange\<close>\<close>

lemma newContent_Nil [simp]: "newContent t [] = t"
  by (simp add: newContent_def sortDesc_def)

lemma changed_text:
  assumes "replacements res path (exec_loop 0 t) = Inr rs" and "rs \<noteq> []"
  shows "newContent t rs \<noteq> t"
  using unchanged_no_ops[OF assms(1)] newContent_rewritten[OF assms(1)] assms(2) by auto

lemma deltaBefore_sortDesc:
  assumes "replacements res path (exec_loop 0 t) = Inr rs"
  shows "deltaBefore c (sortDesc rs) = sum_list (map delta (filter (\<lambda>r. int (start r) < c) rs))"
  by (simp add: sortDesc_rev[OF replacements_exec_strict[OF assms]] deltaBefore_sum sum_list_delta_rev)

lemma handleEditorChange_loop:
  assumes "\<not> getActiveFileThrows h" and "activeFile h = Some path"
    and "\<not> editorReadThrows h"
  shows "handleEditorChange h ed =
           (case replacements (getFirstLinkpathDest h) path (exec_loop 0 (doc ed)) of
              Inl e \<Rightarrow> (ed, Some e)
            | Inr rs \<Rightarrow>
                if rs = [] then (ed, None)
                else (let nc = newContent (doc ed) rs
                      in case setValueDoes h ed nc of
                           ThrewUnwritten \<Rightarrow> (ed, Some WriteFault)
                         | ThrewWritten \<Rightarrow> (setValue h ed nc, Some WriteFault)
                         | Written \<Rightarrow>
                             (let ed1 = setValue h ed nc;
                                  n = newOffset (cursor ed) (sortDesc rs) nc
                              in if \<not> setCursorThrows h nc n then (ed1\<lparr>cursor := n\<rparr>, None)
                                 else if \<not> setCursorThrows h nc (int (length nc))
                                 then (ed1\<lparr>cursor := int (length nc)\<rparr>, None)
                                 else (ed1, Some CursorFault))))"
proof (cases "replacements (getFirstLinkpathDest h) path (exec_loop 0 (doc ed))")
  case (Inl e)
  with assms show ?thesis by (simp add: handleEditorChange_def)
next
  case (Inr rs)
  show ?thesis
  proof (cases "rs = []")
    case True
    with Inr assms show ?thesis by (simp add: handleEditorChange_def)
  next
    case False
    from changed_text[OF Inr False] Inr False assms show ?thesis
      by (simp add: handleEditorChange_def Let_def)
  qed
qed

lemma handleEditorChange_written:
  assumes "hostCallsReturn h" and "activeFile h = Some path"
    and "replacements (getFirstLinkpathDest h) path (exec_loop 0 (doc ed)) = Inr rs"
    and "rs \<noteq> []"
  shows "handleEditorChange h ed =
           (let nc = newContent (doc ed) rs;
                ed1 = setValue h ed nc;
                n = newOffset (cursor ed) (sortDesc rs) nc
            in if \<not> setCursorThrows h nc n then (ed1\<lparr>cursor := n\<rparr>, None)
               else if \<not> setCursorThrows h nc (int (length nc))
               then (ed1\<lparr>cursor := int (length nc)\<rparr>, None)
               else (ed1, Some CursorFault))"
proof -
  from assms(1) have q: "\<not> getActiveFileThrows h" "\<not> editorReadThrows h"
    and w: "setValueDoes h ed (newContent (doc ed) rs) = Written"
    by (simp_all add: hostCallsReturn_def)
  from handleEditorChange_loop[OF q(1) assms(2) q(2), of ed] assms(3,4) w
  show ?thesis by (simp add: Let_def)
qed

lemma handleEditorChange_no_ops:
  assumes "\<not> getActiveFileThrows h" and "activeFile h = Some path"
    and "\<not> editorReadThrows h"
    and "replacements (getFirstLinkpathDest h) path (exec_loop 0 (doc ed)) = Inr []"
  shows "handleEditorChange h ed = (ed, None)"
  using handleEditorChange_loop[OF assms(1-3), of ed] assms(4) by simp

lemma handleEditorChange_doc:
  assumes "hostCallsReturn h" and "activeFile h = Some path"
    and "replacements (getFirstLinkpathDest h) path (exec_loop 0 (doc ed)) = Inr rs"
  shows "doc (fst (handleEditorChange h ed)) = newContent (doc ed) rs"
proof (cases "rs = []")
  case True
  from assms(1) have "\<not> getActiveFileThrows h" "\<not> editorReadThrows h"
    by (simp_all add: hostCallsReturn_def)
  from handleEditorChange_no_ops[OF this(1) assms(2) this(2)] assms(3) True
  show ?thesis by simp
next
  case False
  from handleEditorChange_written[OF assms False] show ?thesis
    by (simp add: Let_def setValue_def)
qed

section \<open>The example inputs evaluated\<close>

lemma exA_ops:
  "replacements (getFirstLinkpathDest exampleA_host) (utf16 ''n.md'')
     (exec_loop 0 (doc exampleA_editor))
   = Inr [\<lparr>start = 4, endIndex = 15, replacement = utf16 ''[[areas/work/Project]]''\<rparr>]"
  unfolding exampleA_host_def exampleA_editor_def by code_simp

lemma exA_newContent:
  "newContent (doc exampleA_editor)
     [\<lparr>start = 4, endIndex = 15, replacement = utf16 ''[[areas/work/Project]]''\<rparr>]
   = utf16 ''See [[areas/work/Project]] for details.''"
  unfolding exampleA_editor_def by code_simp

lemma mixed_matches:
  "exec_loop 0 mixed_doc =
     [\<lparr>index = 0, fullMatch = utf16 ''[[Project]]'', inner = utf16 ''Project''\<rparr>,
      \<lparr>index = 12, fullMatch = utf16 ''[[areas/old/Project]]'', inner = utf16 ''areas/old/Project''\<rparr>,
      \<lparr>index = 34, fullMatch = utf16 ''[[Nowhere]]'', inner = utf16 ''Nowhere''\<rparr>]"
  unfolding mixed_doc_def by code_simp

lemma mixed_ops:
  "replacements (getFirstLinkpathDest exampleA_host) (utf16 ''n.md'') (exec_loop 0 mixed_doc)
   = Inr [\<lparr>start = 0, endIndex = 11, replacement = utf16 ''[[areas/work/Project]]''\<rparr>]"
  unfolding mixed_doc_def exampleA_host_def by code_simp

lemma exampleC_matches:
  "exec_loop 0 (slice_str exampleC_doc 0 28) =
     [\<lparr>index = 6, fullMatch = utf16 ''[[areas/work/Project]]'', inner = utf16 ''areas/work/Project''\<rparr>]"
  unfolding exampleC_doc_def by code_simp

lemma exampleC_decorate:
  "decorate 0 \<lparr>index = 6, fullMatch = utf16 ''[[areas/work/Project]]'',
               inner = utf16 ''areas/work/Project''\<rparr> = [(8, 19)]"
  by code_simp

lemma exampleC_slice: "slice_str exampleC_doc 8 19 = utf16 ''areas/work/''"
  unfolding exampleC_doc_def by code_simp

lemma two_window_ranges:
  "buildDecorations True two_window_doc [(0, 23), (28, 35)] = [(2, 4), (16, 20), (30, 32)]"
  unfolding two_window_doc_def by code_simp

lemma stray_matches:
  "exec_loop 0 stray_doc =
     [\<lparr>index = 10, fullMatch = utf16 ''[[d/e]]'', inner = utf16 ''d/e''\<rparr>]"
  unfolding stray_doc_def by code_simp

lemma stray_span: "slice_str stray_doc 0 9 = [LB, LB] @ utf16 ''a]b/c'' @ [RB, RB]"
  unfolding stray_doc_def by code_simp

lemma stray_ranges: "buildDecorations True stray_doc [(0, 17)] = [(12, 14)]"
  unfolding stray_doc_def by code_simp

lemma exA_stripMd: "stripMd (utf16 ''areas/work/Project.md'') = utf16 ''areas/work/Project''"
  by code_simp

lemma mixed_newContent:
  "newContent mixed_doc [\<lparr>start = 0, endIndex = 11, replacement = utf16 ''[[areas/work/Project]]''\<rparr>]
   = utf16 ''[[areas/work/Project]] [[areas/old/Project]] [[Nowhere]]''"
  unfolding mixed_doc_def by code_simp

lemma root_ops:
  "replacements (getFirstLinkpathDest root_host) (utf16 ''n.md'') (exec_loop 0 (doc root_editor))
   = Inr [\<lparr>start = 4, endIndex = 12, replacement = utf16 ''[[Note]]''\<rparr>]"
  unfolding root_host_def root_editor_def by code_simp

lemma root_newContent:
  "newContent (doc root_editor) [\<lparr>start = 4, endIndex = 12, replacement = utf16 ''[[Note]]''\<rparr>]
   = utf16 ''See [[Note]].''"
  unfolding root_editor_def by code_simp

lemma root_stripMd: "stripMd (utf16 ''Note.md'') = utf16 ''Note''"
  by code_simp

lemma exA_newOffset:
  "newOffset (cursor exampleA_editor)
     (sortDesc [\<lparr>start = 4, endIndex = 15, replacement = utf16 ''[[areas/work/Project]]''\<rparr>])
     (utf16 ''See [[areas/work/Project]] for details.'') = 31"
  unfolding exampleA_editor_def by code_simp

lemma broken_matches:
  "exec_loop 0 (doc broken_editor) =
     [\<lparr>index = 0, fullMatch = utf16 ''[[Project]]'', inner = utf16 ''Project''\<rparr>,
      \<lparr>index = 16, fullMatch = utf16 ''[[Broken]]'', inner = utf16 ''Broken''\<rparr>]"
  unfolding broken_editor_def by code_simp

section \<open>Occurrences that are left alone\<close>

lemma sorted_wrt_pair:
  "sorted_wrt P xs \<Longrightarrow> a \<in> set xs \<Longrightarrow> b \<in> set xs \<Longrightarrow> a = b \<or> P a b \<or> P b a"
  by (induction xs) auto

lemma replacements_complete:
  assumes "replacements res path ms = Inr rs"
    and "\<forall>m \<in> set ms. fullMatch m = [LB, LB] @ inner m @ [RB, RB]"
    and "m \<in> set ms" and "decide res path (inner m) = Some t"
  shows "opFor m t \<in> set rs"
  using assms
proof (induction ms arbitrary: rs)
  case Nil
  then show ?case by simp
next
  case (Cons m0 ms)
  from Cons.prems(2) have wf0: "fullMatch m0 = [LB, LB] @ inner m0 @ [RB, RB]"
    and wf: "\<forall>m \<in> set ms. fullMatch m = [LB, LB] @ inner m @ [RB, RB]" by simp_all
  from replacements_Cons_cases[OF Cons.prems(1) wf0] show ?case
  proof (elim disjE conjE exE)
    assume 1: "decide res path (inner m0) = None" "replacements res path ms = Inr rs"
    with Cons.prems(3,4) have "m \<in> set ms" by auto
    from Cons.IH[OF 1(2) wf this Cons.prems(4)] show ?thesis .
  next
    fix r rs'
    assume 2: "decide res path (inner m0) = Some r" "replacements res path ms = Inr rs'"
      "rs = opFor m0 r # rs'"
    show ?thesis
    proof (cases "m = m0")
      case True
      with 2(1,3) Cons.prems(4) show ?thesis by simp
    next
      case False
      with Cons.prems(3) have "m \<in> set ms" by simp
      from Cons.IH[OF 2(2) wf this Cons.prems(4)] 2(3) show ?thesis by simp
    qed
  qed
qed

lemma replacements_total:
  "\<forall>m \<in> set ms. SLASH \<notin> set (inner m) \<longrightarrow> res (inner m) path \<noteq> Throws \<Longrightarrow>
   \<exists>rs. replacements res path ms = Inr rs"
proof (induction ms)
  case Nil
  then show ?case by simp
next
  case (Cons m ms)
  then obtain rs where rs: "replacements res path ms = Inr rs" by auto
  show ?case
  proof (cases "SLASH \<in> set (inner m)")
    case True
    with rs show ?thesis by simp
  next
    case False
    with Cons.prems have "res (inner m) path \<noteq> Throws" by simp
    with False rs show ?thesis
      by (cases "res (inner m) path") (auto simp: Let_def)
  qed
qed

lemma untouched_span:
  assumes rs: "replacements res path (exec_loop i xs) = Inr rs"
    and m: "m \<in> set (exec_loop i xs)"
    and d: "decide res path (inner m) = None"
    and r: "r \<in> set rs"
  shows "endIndex r \<le> index m \<or> index m + length (fullMatch m) \<le> start r"
proof -
  from replacements_exec_op[OF rs r] obtain m' t
    where m': "m' \<in> set (exec_loop i xs)" and t: "decide res path (inner m') = Some t"
      and r': "r = opFor m' t" by blast
  from t d have "m' \<noteq> m" by auto
  with sorted_wrt_pair[OF exec_loop_ordered m' m]
  have "index m' + length (fullMatch m') \<le> index m \<or> index m + length (fullMatch m) \<le> index m'"
    by blast
  with r' show ?thesis by (simp add: opFor_def)
qed

lemma kept_occurrence:
  "m \<in> set (exec_loop i xs) \<Longrightarrow> replacements res path (exec_loop i xs) = Inr rs \<Longrightarrow>
   decide res path (inner m) = None \<Longrightarrow>
   \<exists>pre suf. rewritten (decide res path) xs = pre @ fullMatch m @ suf \<and>
     int (length pre) = int (index m) - int i
        + sum_list (map delta (filter (\<lambda>r. start r < index m) rs))"
proof (induction i xs arbitrary: rs rule: exec_loop.induct)
  case (1 i)
  then show ?case by simp
next
  case (2 i x xs)
  show ?case
  proof (cases "match_at (x # xs)")
    case None
    with "2.prems" have m: "m \<in> set (exec_loop (Suc i) xs)"
      and r: "replacements res path (exec_loop (Suc i) xs) = Inr rs" by simp_all
    from "2.IH"(1)[OF None m r "2.prems"(3)] obtain pre suf
      where "rewritten (decide res path) xs = pre @ fullMatch m @ suf"
        and "int (length pre) = int (index m) - int (Suc i)
              + sum_list (map delta (filter (\<lambda>r. start r < index m) rs))"
      by blast
    with None have "rewritten (decide res path) (x # xs) = (x # pre) @ fullMatch m @ suf \<and>
        int (length (x # pre)) = int (index m) - int i
              + sum_list (map delta (filter (\<lambda>r. start r < index m) rs))"
      by simp
    then show ?thesis by blast
  next
    case (Some inn)
    define n where "n = length inn + 4"
    define A where "A = [LB, LB] @ inn @ [RB, RB]"
    define rest where "rest = drop n (x # xs)"
    define m0 where "m0 = \<lparr>index = i, fullMatch = A, inner = inn\<rparr>"
    have lenA: "length A = n" by (simp add: A_def n_def)
    have rw0: "rewritten (decide res path) (x # xs) =
              (case decide res path inn of None \<Rightarrow> A | Some r \<Rightarrow> r) @ rewritten (decide res path) rest"
      unfolding A_def rest_def n_def by (rule rewritten_match[OF Some])
    have ex: "exec_loop i (x # xs) = m0 # exec_loop (i + n) rest"
      unfolding m0_def A_def rest_def n_def by (rule exec_loop_match[OF Some])
    note step = replacements_exec_match[OF Some "2.prems"(2), folded n_def, folded rest_def]
    note IH = "2.IH"(2)[OF Some, folded n_def, folded rest_def]
    have later: "i + n \<le> start r" if "replacements res path (exec_loop (i + n) rest) = Inr rs'"
      "r \<in> set rs'" for r rs'
    proof -
      from replacements_exec_op[OF that] obtain m' t
        where "m' \<in> set (exec_loop (i + n) rest)" "r = opFor m' t" by blast
      with exec_loop_sound[of m' "i + n" rest] show ?thesis by (simp add: opFor_def)
    qed
    from "2.prems"(1) ex consider "m = m0" | "m \<in> set (exec_loop (i + n) rest)" by auto
    then show ?thesis
    proof cases
      case 1
      with "2.prems"(3) have dn: "decide res path inn = None" by (simp add: m0_def)
      with step have r: "replacements res path (exec_loop (i + n) rest) = Inr rs" by auto
      have "\<not> start r < index m" if "r \<in> set rs" for r
        using later[OF r that] 1 by (simp add: m0_def)
      then have "filter (\<lambda>r. start r < index m) rs = []"
        by (simp add: filter_empty_conv)
      with dn 1 have "rewritten (decide res path) (x # xs) = [] @ fullMatch m @ rewritten (decide res path) rest \<and>
          int (length ([]::jstr)) = int (index m) - int i
              + sum_list (map delta (filter (\<lambda>r. start r < index m) rs))"
        unfolding rw0 by (simp add: m0_def)
      then show ?thesis by blast
    next
      case 2
      from exec_loop_sound[OF 2] have idx: "i + n \<le> index m" by simp
      have "0 < n" by (simp add: n_def)
      with idx have lt: "i < index m" by simp
      from step show ?thesis
      proof (elim disjE conjE exE)
        assume a: "decide res path inn = None"
          "replacements res path (exec_loop (i + n) rest) = Inr rs"
        from IH[OF 2 a(2) "2.prems"(3)] obtain pre suf
          where "rewritten (decide res path) rest = pre @ fullMatch m @ suf"
            and "int (length pre) = int (index m) - int (i + n)
                  + sum_list (map delta (filter (\<lambda>r. start r < index m) rs))"
          by blast
        with a(1) lenA have "rewritten (decide res path) (x # xs) = (A @ pre) @ fullMatch m @ suf \<and>
          int (length (A @ pre)) = int (index m) - int i
              + sum_list (map delta (filter (\<lambda>r. start r < index m) rs))"
          unfolding rw0 by simp
        then show ?thesis by blast
      next
        fix t rs'
        assume b: "decide res path inn = Some t"
          "replacements res path (exec_loop (i + n) rest) = Inr rs'"
          "rs = \<lparr>start = i, endIndex = i + n, replacement = t\<rparr> # rs'"
        from IH[OF 2 b(2) "2.prems"(3)] obtain pre suf
          where "rewritten (decide res path) rest = pre @ fullMatch m @ suf"
            and "int (length pre) = int (index m) - int (i + n)
                  + sum_list (map delta (filter (\<lambda>r. start r < index m) rs'))"
          by blast
        with b(1,3) idx lt have "rewritten (decide res path) (x # xs) = (t @ pre) @ fullMatch m @ suf \<and>
          int (length (t @ pre)) = int (index m) - int i
              + sum_list (map delta (filter (\<lambda>r. start r < index m) rs))"
          unfolding rw0 by (simp add: delta_def)
        then show ?thesis by blast
      qed
    qed
  qed
qed

lemma replaced_occurrence:
  "m \<in> set (exec_loop i xs) \<Longrightarrow> replacements res path (exec_loop i xs) = Inr rs \<Longrightarrow>
   decide res path (inner m) = Some t \<Longrightarrow>
   \<exists>pre suf. rewritten (decide res path) xs = pre @ t @ suf \<and>
     int (length pre) = int (index m) - int i
        + sum_list (map delta (filter (\<lambda>r. start r < index m) rs))"
proof (induction i xs arbitrary: rs rule: exec_loop.induct)
  case (1 i)
  then show ?case by simp
next
  case (2 i x xs)
  show ?case
  proof (cases "match_at (x # xs)")
    case None
    with "2.prems" have m: "m \<in> set (exec_loop (Suc i) xs)"
      and r: "replacements res path (exec_loop (Suc i) xs) = Inr rs" by simp_all
    from "2.IH"(1)[OF None m r "2.prems"(3)] obtain pre suf
      where "rewritten (decide res path) xs = pre @ t @ suf"
        and "int (length pre) = int (index m) - int (Suc i)
              + sum_list (map delta (filter (\<lambda>r. start r < index m) rs))"
      by blast
    with None have "rewritten (decide res path) (x # xs) = (x # pre) @ t @ suf \<and>
        int (length (x # pre)) = int (index m) - int i
              + sum_list (map delta (filter (\<lambda>r. start r < index m) rs))"
      by simp
    then show ?thesis by blast
  next
    case (Some inn)
    define n where "n = length inn + 4"
    define A where "A = [LB, LB] @ inn @ [RB, RB]"
    define rest where "rest = drop n (x # xs)"
    define m0 where "m0 = \<lparr>index = i, fullMatch = A, inner = inn\<rparr>"
    have lenA: "length A = n" by (simp add: A_def n_def)
    have rw0: "rewritten (decide res path) (x # xs) =
              (case decide res path inn of None \<Rightarrow> A | Some r \<Rightarrow> r) @ rewritten (decide res path) rest"
      unfolding A_def rest_def n_def by (rule rewritten_match[OF Some])
    have ex: "exec_loop i (x # xs) = m0 # exec_loop (i + n) rest"
      unfolding m0_def A_def rest_def n_def by (rule exec_loop_match[OF Some])
    note step = replacements_exec_match[OF Some "2.prems"(2), folded n_def, folded rest_def]
    note IH = "2.IH"(2)[OF Some, folded n_def, folded rest_def]
    have later: "i + n \<le> start r" if "replacements res path (exec_loop (i + n) rest) = Inr rs'"
      "r \<in> set rs'" for r rs'
    proof -
      from replacements_exec_op[OF that] obtain m' u
        where "m' \<in> set (exec_loop (i + n) rest)" "r = opFor m' u" by blast
      with exec_loop_sound[of m' "i + n" rest] show ?thesis by (simp add: opFor_def)
    qed
    from "2.prems"(1) ex consider "m = m0" | "m \<in> set (exec_loop (i + n) rest)" by auto
    then show ?thesis
    proof cases
      case 1
      with "2.prems"(3) have dn: "decide res path inn = Some t" by (simp add: m0_def)
      with step obtain rs' where r: "replacements res path (exec_loop (i + n) rest) = Inr rs'"
        and rs: "rs = \<lparr>start = i, endIndex = i + n, replacement = t\<rparr> # rs'" by auto
      have "\<not> start r < index m" if "r \<in> set rs" for r
        using later[OF r, of r] that 1 rs by (auto simp: m0_def)
      then have "filter (\<lambda>r. start r < index m) rs = []"
        by (simp add: filter_empty_conv)
      with dn 1 have "rewritten (decide res path) (x # xs) = [] @ t @ rewritten (decide res path) rest \<and>
          int (length ([]::jstr)) = int (index m) - int i
              + sum_list (map delta (filter (\<lambda>r. start r < index m) rs))"
        unfolding rw0 by (simp add: m0_def)
      then show ?thesis by blast
    next
      case 2
      from exec_loop_sound[OF 2] have idx: "i + n \<le> index m" by simp
      have "0 < n" by (simp add: n_def)
      with idx have lt: "i < index m" by simp
      from step show ?thesis
      proof (elim disjE conjE exE)
        assume a: "decide res path inn = None"
          "replacements res path (exec_loop (i + n) rest) = Inr rs"
        from IH[OF 2 a(2) "2.prems"(3)] obtain pre suf
          where "rewritten (decide res path) rest = pre @ t @ suf"
            and "int (length pre) = int (index m) - int (i + n)
                  + sum_list (map delta (filter (\<lambda>r. start r < index m) rs))"
          by blast
        with a(1) lenA have "rewritten (decide res path) (x # xs) = (A @ pre) @ t @ suf \<and>
          int (length (A @ pre)) = int (index m) - int i
              + sum_list (map delta (filter (\<lambda>r. start r < index m) rs))"
          unfolding rw0 by simp
        then show ?thesis by blast
      next
        fix u rs'
        assume b: "decide res path inn = Some u"
          "replacements res path (exec_loop (i + n) rest) = Inr rs'"
          "rs = \<lparr>start = i, endIndex = i + n, replacement = u\<rparr> # rs'"
        from IH[OF 2 b(2) "2.prems"(3)] obtain pre suf
          where "rewritten (decide res path) rest = pre @ t @ suf"
            and "int (length pre) = int (index m) - int (i + n)
                  + sum_list (map delta (filter (\<lambda>r. start r < index m) rs'))"
          by blast
        with b(1,3) idx lt have "rewritten (decide res path) (x # xs) = (u @ pre) @ t @ suf \<and>
          int (length (u @ pre)) = int (index m) - int i
              + sum_list (map delta (filter (\<lambda>r. start r < index m) rs))"
          unfolding rw0 by (simp add: delta_def)
        then show ?thesis by blast
      qed
    qed
  qed
qed

lemma handleEditorChange_doc_cases:
  "doc (fst (handleEditorChange h ed)) = doc ed \<or>
   (\<exists>path rs. activeFile h = Some path \<and>
      replacements (getFirstLinkpathDest h) path (exec_loop 0 (doc ed)) = Inr rs \<and>
      doc (fst (handleEditorChange h ed)) = newContent (doc ed) rs)"
  by (auto simp: handleEditorChange_def Let_def setValue_def
        split: option.splits sum.splits written.splits if_splits)

lemma occurrence_in_text:
  assumes "m \<in> set (exec_loop 0 t)"
  shows "\<exists>pre suf. t = pre @ fullMatch m @ suf"
  using exec_loop_sound[OF assms] by blast

lemma kept_in_document:
  assumes m: "m \<in> set (exec_loop 0 (doc ed))"
    and d: "\<And>path. activeFile h = Some path \<Longrightarrow>
              decide (getFirstLinkpathDest h) path (inner m) = None"
  shows "\<exists>pre suf. doc (fst (handleEditorChange h ed)) = pre @ fullMatch m @ suf"
  using handleEditorChange_doc_cases[of h ed]
proof (elim disjE exE conjE)
  assume "doc (fst (handleEditorChange h ed)) = doc ed"
  with occurrence_in_text[OF m] show ?thesis by simp
next
  fix path rs
  assume af: "activeFile h = Some path"
    and rs: "replacements (getFirstLinkpathDest h) path (exec_loop 0 (doc ed)) = Inr rs"
    and e: "doc (fst (handleEditorChange h ed)) = newContent (doc ed) rs"
  from kept_occurrence[OF m rs d[OF af]] newContent_rewritten[OF rs] e
  show ?thesis by auto
qed

section \<open>The Concealer: offsets and order\<close>

lemma lastIndexOf_none: "c \<notin> set xs \<Longrightarrow> lastIndexOf c xs = - 1"
  by (induction xs) (auto simp: Let_def)

lemma lastIndexOf_split:
  "c \<in> set xs \<Longrightarrow>
     \<exists>pre name. xs = pre @ [c] @ name \<and> c \<notin> set name \<and> lastIndexOf c xs = int (length pre)"
proof (induction xs)
  case Nil
  then show ?case by simp
next
  case (Cons x xs)
  show ?case
  proof (cases "c \<in> set xs")
    case True
    from Cons.IH[OF True] obtain pre name
      where "xs = pre @ [c] @ name" "c \<notin> set name" "lastIndexOf c xs = int (length pre)"
      by blast
    then have "x # xs = (x # pre) @ [c] @ name \<and> c \<notin> set name \<and>
               lastIndexOf c (x # xs) = int (length (x # pre))"
      by (simp add: Let_def)
    then show ?thesis by blast
  next
    case False
    with Cons.prems have x: "x = c" by simp
    from False have "lastIndexOf c xs = - 1" by (rule lastIndexOf_none)
    with x False have "x # xs = [] @ [c] @ xs \<and> c \<notin> set xs \<and>
               lastIndexOf c (x # xs) = int (length ([]::jstr))"
      by (simp add: Let_def)
    then show ?thesis by blast
  qed
qed

lemma slice_slice:
  assumes "slice_str t f u = pre @ ys @ rest"
  shows "slice_str t (f + length pre) (f + length pre + length ys) = ys"
    and "f + length pre + length ys \<le> f + length (slice_str t f u)"
proof -
  define tl0 where "tl0 = drop (u - f) (drop f t)"
  have "drop f t = slice_str t f u @ tl0"
    unfolding slice_str_def tl0_def by (simp only: append_take_drop_id)
  then have d: "drop f t = pre @ ys @ (rest @ tl0)"
    by (simp only: assms append_assoc)
  have "drop (f + length pre) t = drop (length pre) (drop f t)"
    by (simp add: add.commute)
  also have "\<dots> = ys @ (rest @ tl0)"
    unfolding d by simp
  finally have "take (length ys) (drop (f + length pre) t) = ys"
    by simp
  then show "slice_str t (f + length pre) (f + length pre + length ys) = ys"
    by (simp add: slice_str_def)
  show "f + length pre + length ys \<le> f + length (slice_str t f u)"
    by (simp add: assms)
qed

lemma length_slice: "length (slice_str t f u) \<le> u - f"
  by (simp add: slice_str_def)

lemma window_occurrence:
  assumes "m \<in> set (exec_loop 0 (slice_str t f u))"
  shows "slice_str t (f + index m) (f + index m + length (fullMatch m)) = fullMatch m"
    and "f + index m + length (fullMatch m) \<le> f + length (slice_str t f u)"
proof -
  from exec_loop_sound[OF assms] obtain pre rest
    where s: "slice_str t f u = pre @ fullMatch m @ rest" and i: "length pre = index m"
    by auto
  from slice_slice[OF s] i
  show "slice_str t (f + index m) (f + index m + length (fullMatch m)) = fullMatch m"
    and "f + index m + length (fullMatch m) \<le> f + length (slice_str t f u)"
    by simp_all
qed

lemma decorate_cases:
  "(SLASH \<notin> set (inner m) \<longrightarrow> decorate f m = []) \<and>
   (SLASH \<in> set (inner m) \<longrightarrow>
      (\<exists>pre name. inner m = pre @ [SLASH] @ name \<and> SLASH \<notin> set name \<and>
         decorate f m = [(f + index m + 2, f + index m + 2 + length pre + 1)]))"
proof (cases "SLASH \<in> set (inner m)")
  case True
  from lastIndexOf_split[OF True] obtain pre name
    where p: "inner m = pre @ [SLASH] @ name" "SLASH \<notin> set name"
      "lastIndexOf SLASH (inner m) = int (length pre)"
    by blast
  have "nat (int (f + index m + 2) + int (length pre) + 1) = f + index m + 2 + length pre + 1"
    by simp
  with True p(3) have "decorate f m = [(f + index m + 2, f + index m + 2 + length pre + 1)]"
    by (simp add: decorate_def Let_def)
  with True p(1,2) show ?thesis by blast
next
  case False
  then show ?thesis by (simp add: decorate_def)
qed

lemma decorate_bounds:
  assumes "(a, b) \<in> set (decorate f m)"
    and "fullMatch m = [LB, LB] @ inner m @ [RB, RB]"
  shows "f + index m + 2 = a \<and> a < b \<and> b + 2 \<le> f + index m + length (fullMatch m)"
proof -
  from assms(1) have sl: "SLASH \<in> set (inner m)"
    by (auto simp: decorate_def split: if_splits)
  with decorate_cases[of m f] obtain pre name
    where p: "inner m = pre @ [SLASH] @ name"
      and d: "decorate f m = [(f + index m + 2, f + index m + 2 + length pre + 1)]"
    by blast
  from assms(1) d have "a = f + index m + 2" "b = f + index m + 2 + length pre + 1" by simp_all
  moreover have "length (fullMatch m) = length pre + 1 + length name + 4"
    by (simp add: assms(2) p)
  ultimately show ?thesis by simp
qed

lemma in_buildDecorations:
  assumes "(wfrom, wto) \<in> set visibleRanges"
    and "m \<in> set (exec_loop 0 (slice_str t wfrom wto))"
    and "r \<in> set (decorate wfrom m)"
  shows "r \<in> set (buildDecorations True t visibleRanges)"
  using assms by (fastforce simp: buildDecorations_def)

lemma concat_sorted:
  assumes "\<forall>x \<in> set xs. sorted_wrt R (f x)"
    and "sorted_wrt (\<lambda>x y. \<forall>a \<in> set (f x). \<forall>b \<in> set (f y). R a b) xs"
  shows "sorted_wrt R (concat (map f xs))"
  using assms by (induction xs) (auto simp: sorted_wrt_append)

lemma buildDecorations_windows:
  "buildDecorations True t ws = concat (map (windowRanges t) ws)"
proof -
  have "(\<lambda>(wfrom, wto). concat (map (decorate wfrom) (exec_loop 0 (slice_str t wfrom wto))))
        = windowRanges t"
    by (auto simp: windowRanges_def fun_eq_iff)
  then show ?thesis by (simp add: buildDecorations_def)
qed

lemma windowRanges_bounds:
  assumes "r \<in> set (windowRanges t w)"
  shows "fst w \<le> fst r \<and> fst r < snd r \<and> snd r \<le> snd w"
proof -
  from assms obtain m where m: "m \<in> set (exec_loop 0 (slice_str t (fst w) (snd w)))"
    and r: "r \<in> set (decorate (fst w) m)"
    by (auto simp: windowRanges_def)
  from exec_loop_sound[OF m] have fm: "fullMatch m = [LB, LB] @ inner m @ [RB, RB]" by simp
  from decorate_bounds[of "fst r" "snd r" "fst w" m] r fm
  have b: "fst w + index m + 2 = fst r" "fst r < snd r"
    "snd r + 2 \<le> fst w + index m + length (fullMatch m)" by simp_all
  from window_occurrence(2)[OF m] length_slice[of t "fst w" "snd w"]
  have "fst w + index m + length (fullMatch m) \<le> fst w + (snd w - fst w)" by simp
  moreover from fm have "0 < length (fullMatch m)" by simp
  ultimately have "fst w + index m + length (fullMatch m) \<le> snd w" by linarith
  with b show ?thesis by linarith
qed

lemma windowRanges_sorted:
  "sorted_wrt (\<lambda>r1 r2. snd r1 \<le> fst r2 \<and> fst r1 \<le> fst r2) (windowRanges t w)"
  unfolding windowRanges_def
proof (rule concat_sorted)
  show "\<forall>m \<in> set (exec_loop 0 (slice_str t (fst w) (snd w))).
          sorted_wrt (\<lambda>r1 r2. snd r1 \<le> fst r2 \<and> fst r1 \<le> fst r2) (decorate (fst w) m)"
    by (auto simp: decorate_def Let_def)
  have "\<forall>a \<in> set (decorate (fst w) x). \<forall>b \<in> set (decorate (fst w) y).
          snd a \<le> fst b \<and> fst a \<le> fst b"
    if x: "x \<in> set (exec_loop 0 (slice_str t (fst w) (snd w)))"
      and y: "y \<in> set (exec_loop 0 (slice_str t (fst w) (snd w)))"
      and o: "index x + length (fullMatch x) \<le> index y" for x y
  proof (intro ballI)
    fix a b assume a: "a \<in> set (decorate (fst w) x)" and b: "b \<in> set (decorate (fst w) y)"
    from exec_loop_sound[OF x] have fx: "fullMatch x = [LB, LB] @ inner x @ [RB, RB]" by simp
    from exec_loop_sound[OF y] have fy: "fullMatch y = [LB, LB] @ inner y @ [RB, RB]" by simp
    from decorate_bounds[of "fst a" "snd a" "fst w" x] a fx
    have "fst a < snd a" "snd a + 2 \<le> fst w + index x + length (fullMatch x)" by simp_all
    moreover from decorate_bounds[of "fst b" "snd b" "fst w" y] b fy
    have "fst w + index y + 2 = fst b" by simp
    ultimately show "snd a \<le> fst b \<and> fst a \<le> fst b" using o by linarith
  qed
  then show "sorted_wrt (\<lambda>x y. \<forall>a \<in> set (decorate (fst w) x). \<forall>b \<in> set (decorate (fst w) y).
                 snd a \<le> fst b \<and> fst a \<le> fst b) (exec_loop 0 (slice_str t (fst w) (snd w)))"
    by (rule sorted_wrt_mono_rel[OF _ exec_loop_ordered]) blast
qed

section \<open>Scanning the rewritten text\<close>

lemma rewritten_take1:
  "take 1 (rewritten (decide res path) xs) = take 1 xs"
proof (cases xs)
  case Nil
  then show ?thesis by simp
next
  case (Cons x xs')
  show ?thesis
  proof (cases "match_at xs")
    case None
    with Cons show ?thesis by simp
  next
    case (Some inn)
    from match_at_decomp(2)[OF Some] have "take 1 xs = [LB]"
      by (metis append_Cons append_Nil take_Suc_Cons take_0 One_nat_def)
    moreover have "take 1 (case decide res path inn of None \<Rightarrow> [LB, LB] @ inn @ [RB, RB] | Some r \<Rightarrow> r) = [LB]"
    proof (cases "decide res path inn")
      case None
      then show ?thesis by simp
    next
      case (Some t)
      from decide_Some[OF this] show ?thesis using Some by auto
    qed
    ultimately show ?thesis
      unfolding rewritten_match[OF Some]
      by (cases "decide res path inn") (auto dest: decide_Some)
  qed
qed

lemma rewritten_take2:
  "take 2 (rewritten (decide res path) xs) = take 2 xs"
proof (cases xs)
  case Nil
  then show ?thesis by simp
next
  case (Cons x xs')
  show ?thesis
  proof (cases "match_at xs")
    case None
    have "take 2 (x # ys) = x # take 1 ys" for ys :: jstr
      by (simp add: numeral_2_eq_2)
    with None Cons rewritten_take1[of res path xs'] show ?thesis by simp
  next
    case (Some inn)
    from match_at_decomp(2)[OF Some] have "take 2 xs = [LB, LB]"
      by (metis append_Cons append_Nil take_Suc_Cons take_0 numeral_2_eq_2)
    then show ?thesis
      unfolding rewritten_match[OF Some]
      by (cases "decide res path inn") (auto dest: decide_Some)
  qed
qed

lemma lazy_inner_rewritten:
  "lazy_inner acc ys = None \<Longrightarrow> lazy_inner acc (rewritten (decide res path) ys) = None"
proof (induction ys arbitrary: acc)
  case Nil
  then show ?case by simp
next
  case (Cons c cs)
  have nm: "match_at (c # cs) = None"
  proof (rule ccontr)
    assume "match_at (c # cs) \<noteq> None"
    then obtain inn where "match_at (c # cs) = Some inn" by auto
    then obtain rest where "inn \<noteq> []" "RB \<notin> set inn" "c # cs = [LB, LB] @ inn @ [RB, RB] @ rest"
      by (auto simp: match_at_Some_iff)
    then have "c # cs = ([LB, LB] @ inn) @ [RB, RB] @ rest" "[LB, LB] @ inn \<noteq> []"
      "RB \<notin> set ([LB, LB] @ inn)" by simp_all
    from lazy_inner_run[OF this(2,3), of acc rest] this(1) Cons.prems show False
      by simp
  qed
  then have rw: "rewritten (decide res path) (c # cs) = c # rewritten (decide res path) cs"
    by simp
  show ?case
  proof (cases "c = RB")
    case True
    then show ?thesis unfolding rw by simp
  next
    case False
    with Cons.prems have t: "take 2 cs \<noteq> [RB, RB]" and l: "lazy_inner (acc @ [c]) cs = None"
      by (auto split: if_splits)
    from Cons.IH[OF l] t False show ?thesis
      unfolding rw by (simp add: rewritten_take2)
  qed
qed

lemma match_at_rewritten_None:
  assumes "match_at (x # xs) = None"
  shows "match_at (x # rewritten (decide res path) xs) = None"
proof (cases "take 2 (x # xs) = [LB, LB]")
  case False
  have "take 2 (x # ys) = x # take 1 ys" for ys :: jstr
    by (simp add: numeral_2_eq_2)
  with rewritten_take1[of res path xs]
  have "take 2 (x # rewritten (decide res path) xs) = take 2 (x # xs)"
    by simp
  with False have "take 2 (x # rewritten (decide res path) xs) \<noteq> [LB, LB]"
    by simp
  then show ?thesis
    unfolding match_at_def by (simp only: if_False)
next
  case True
  then obtain xs' where x: "x = LB" and xs: "xs = LB # xs'"
    by (cases xs) (auto simp: numeral_2_eq_2)
  from assms True have l: "lazy_inner [] xs' = None"
    by (simp add: match_at_def xs)
  have nm: "match_at xs = None"
  proof (rule ccontr)
    assume "match_at xs \<noteq> None"
    then obtain inn where "match_at xs = Some inn" by auto
    then obtain rest where "inn \<noteq> []" "RB \<notin> set inn" "xs = [LB, LB] @ inn @ [RB, RB] @ rest"
      by (auto simp: match_at_Some_iff)
    then have "x # xs = [LB, LB] @ (LB # inn) @ [RB, RB] @ rest" "LB # inn \<noteq> []"
      "RB \<notin> set (LB # inn)" using x by simp_all
    then have "match_at (x # xs) = Some (LB # inn)"
      unfolding match_at_Some_iff by blast
    with assms show False by simp
  qed
  then have "rewritten (decide res path) xs = LB # rewritten (decide res path) xs'"
    by (simp add: xs)
  with lazy_inner_rewritten[OF l, of res path] x show ?thesis
    by (simp add: match_at_def)
qed

lemma exec_loop_empty_brackets:
  "exec_loop j ([LB, LB, RB, RB] @ R) = exec_loop (j + 4) R"
proof -
  have 1: "match_at (LB # LB # RB # RB # R) = None"
    by (simp add: match_at_def)
  have 2: "match_at (LB # RB # RB # R) = None"
    by (simp add: match_at_def numeral_2_eq_2)
  have 3: "match_at (RB # RB # R) = None"
    by (simp add: match_at_def numeral_2_eq_2)
  have 4: "match_at (RB # R) = None"
    by (cases R) (simp_all add: match_at_def numeral_2_eq_2)
  from 1 2 3 4
  have "exec_loop j ([LB, LB, RB, RB] @ R) = exec_loop (Suc (Suc (Suc (Suc j)))) R"
    by simp
  moreover have "Suc (Suc (Suc (Suc j))) = j + 4" by simp
  ultimately show ?thesis by (simp only:)
qed

lemma second_scan:
  "\<forall>m \<in> set (exec_loop i xs). \<forall>q. decide res path (inner m) = Some ([LB, LB] @ q @ [RB, RB])
       \<longrightarrow> RB \<notin> set q \<Longrightarrow>
   m2 \<in> set (exec_loop j (rewritten (decide res path) xs)) \<Longrightarrow>
   \<exists>m \<in> set (exec_loop i xs).
      (decide res path (inner m) = None \<and> inner m2 = inner m) \<or>
      decide res path (inner m) = Some ([LB, LB] @ inner m2 @ [RB, RB])"
proof (induction i xs arbitrary: j rule: exec_loop.induct)
  case (1 i)
  then show ?case by simp
next
  case (2 i x xs)
  show ?case
  proof (cases "match_at (x # xs)")
    case None
    from match_at_rewritten_None[OF None, of res path] None "2.prems"(2)
    have "m2 \<in> set (exec_loop (Suc j) (rewritten (decide res path) xs))"
      by simp
    moreover from "2.prems"(1) None
    have "\<forall>m \<in> set (exec_loop (Suc i) xs). \<forall>q.
            decide res path (inner m) = Some ([LB, LB] @ q @ [RB, RB]) \<longrightarrow> RB \<notin> set q"
      by simp
    ultimately show ?thesis using "2.IH"(1)[OF None] None by simp
  next
    case (Some inn)
    define n where "n = length inn + 4"
    define A where "A = [LB, LB] @ inn @ [RB, RB]"
    define rest where "rest = drop n (x # xs)"
    define m0 where "m0 = \<lparr>index = i, fullMatch = A, inner = inn\<rparr>"
    define R where "R = rewritten (decide res path) rest"
    have rw0: "rewritten (decide res path) (x # xs) =
              (case decide res path inn of None \<Rightarrow> A | Some r \<Rightarrow> r) @ R"
      unfolding A_def rest_def n_def R_def by (rule rewritten_match[OF Some])
    have ex: "exec_loop i (x # xs) = m0 # exec_loop (i + n) rest"
      unfolding m0_def A_def rest_def n_def by (rule exec_loop_match[OF Some])
    from Some have inn: "inn \<noteq> []" "RB \<notin> set inn" by (simp_all add: match_at_Some_iff)
    from "2.prems"(1) ex
    have fp0: "\<forall>q. decide res path inn = Some ([LB, LB] @ q @ [RB, RB]) \<longrightarrow> RB \<notin> set q"
      and fpr: "\<forall>m \<in> set (exec_loop (i + n) rest). \<forall>q.
            decide res path (inner m) = Some ([LB, LB] @ q @ [RB, RB]) \<longrightarrow> RB \<notin> set q"
      by (simp_all add: m0_def)
    note IH = "2.IH"(2)[OF Some, folded n_def, folded rest_def, folded R_def, OF fpr]
    obtain q where B: "(case decide res path inn of None \<Rightarrow> A | Some r \<Rightarrow> r) = [LB, LB] @ q @ [RB, RB]"
      and q: "RB \<notin> set q"
      and qcase: "(decide res path inn = None \<and> q = inn) \<or>
                  decide res path inn = Some ([LB, LB] @ q @ [RB, RB])"
    proof (cases "decide res path inn")
      case None
      with inn that[of inn] show ?thesis by (simp add: A_def)
    next
      case (Some t)
      from decide_Some[OF Some] obtain p where p: "t = [LB, LB] @ stripMd p @ [RB, RB]"
        by blast
      with fp0 Some have "RB \<notin> set (stripMd p)" by blast
      with Some p that[of "stripMd p"] show ?thesis by simp
    qed
    define Bq where "Bq = [LB, LB] @ q @ [RB, RB]"
    from "2.prems"(2) have m2: "m2 \<in> set (exec_loop j (Bq @ R))"
      unfolding rw0 B Bq_def .
    have "inner m2 = q \<and> q \<noteq> [] \<or> (\<exists>j'. m2 \<in> set (exec_loop j' R))"
    proof (cases "q = []")
      case True
      with m2 exec_loop_empty_brackets[of j R] show ?thesis
        by (auto simp: Bq_def)
    next
      case False
      have mq: "match_at (Bq @ R) = Some q"
        unfolding match_at_Some_iff Bq_def using q False by auto
      have lenq: "length q + 4 = length Bq" by (simp add: Bq_def)
      have dr: "drop (length q + 4) (Bq @ R) = R" unfolding lenq by simp
      note ex2 = exec_loop_match[OF mq, of j, unfolded dr]
      from m2 False show ?thesis unfolding ex2 by auto
    qed
    then show ?thesis
    proof (elim disjE conjE exE)
      assume 1: "inner m2 = q"
      from qcase 1 have "(decide res path (inner m0) = None \<and> inner m2 = inner m0) \<or>
                          decide res path (inner m0) = Some ([LB, LB] @ inner m2 @ [RB, RB])"
        by (auto simp: m0_def)
      with ex show ?thesis by auto
    next
      fix j' assume "m2 \<in> set (exec_loop j' R)"
      from IH[OF this] ex show ?thesis by auto
    qed
  qed
qed

lemma settled_decide:
  assumes "SLASH \<in> set q \<or> (\<forall>p'. res q path = TFile p' \<longrightarrow> stripMd p' = q)"
  shows "decide res path q = None"
  using assms by (auto simp: decide_def split: dest.splits)

lemma replacements_tail:
  "replacements res path (m # ms) = Inr rs \<Longrightarrow> \<exists>rs'. replacements res path ms = Inr rs'"
  by (auto simp: Let_def split: if_splits dest.splits sum.splits)

lemma first_pass_no_throw:
  "replacements res path ms = Inr rs \<Longrightarrow> m \<in> set ms \<Longrightarrow> SLASH \<notin> set (inner m) \<Longrightarrow>
   res (inner m) path \<noteq> Throws"
  using resolver_throw_iff[of res path ms] by auto

lemma replacements_skip_all:
  "\<forall>m \<in> set ms. fullMatch m = [LB, LB] @ inner m @ [RB, RB] \<and>
                 decide res path (inner m) = None \<and>
                 (SLASH \<in> set (inner m) \<or> res (inner m) path \<noteq> Throws) \<Longrightarrow>
   replacements res path ms = Inr []"
proof (induction ms)
  case Nil
  then show ?case by simp
next
  case (Cons m ms)
  then have IH: "replacements res path ms = Inr []" by simp
  from Cons.prems have wf: "fullMatch m = [LB, LB] @ inner m @ [RB, RB]"
    and d: "decide res path (inner m) = None"
    and nt: "SLASH \<in> set (inner m) \<or> res (inner m) path \<noteq> Throws" by simp_all
  show ?case
  proof (cases "SLASH \<in> set (inner m)")
    case True
    with IH show ?thesis by simp
  next
    case False
    with nt have "res (inner m) path \<noteq> Throws" by simp
    with False d wf IH show ?thesis
      by (cases "res (inner m) path") (auto simp: decide_def Let_def split: if_splits)
  qed
qed

text \<open>What the second scan finds, when the recorded replacements are settled.\<close>

lemma second_pass_matches:
  assumes rs: "replacements res path (exec_loop 0 t) = Inr rs"
    and H: "\<forall>r \<in> set rs. \<forall>q. replacement r = [LB, LB] @ q @ [RB, RB] \<longrightarrow>
              RB \<notin> set q \<and>
              (q = [] \<or> SLASH \<in> set q \<or> (\<forall>p'. res q path = TFile p' \<longrightarrow> stripMd p' = q))"
    and m2: "m2 \<in> set (exec_loop 0 (newContent t rs))"
  shows "decide res path (inner m2) = None \<and>
         (SLASH \<in> set (inner m2) \<or> res (inner m2) path \<noteq> Throws \<or>
          (\<exists>r \<in> set rs. replacement r = [LB, LB] @ inner m2 @ [RB, RB]))"
proof -
  have op: "\<exists>r \<in> set rs. replacement r = u"
    if "m \<in> set (exec_loop 0 t)" "decide res path (inner m) = Some u" for m u
  proof -
    from replacements_complete[OF rs exec_loop_wf that] have "opFor m u \<in> set rs" .
    moreover have "replacement (opFor m u) = u" by (simp add: opFor_def)
    ultimately show ?thesis by blast
  qed
  have fp: "\<forall>m \<in> set (exec_loop 0 t). \<forall>q.
              decide res path (inner m) = Some ([LB, LB] @ q @ [RB, RB]) \<longrightarrow> RB \<notin> set q"
    using op H by blast
  from m2 have "m2 \<in> set (exec_loop 0 (rewritten (decide res path) t))"
    by (simp add: newContent_rewritten[OF rs])
  from second_scan[OF fp this] obtain m where m: "m \<in> set (exec_loop 0 t)"
    and c: "(decide res path (inner m) = None \<and> inner m2 = inner m) \<or>
            decide res path (inner m) = Some ([LB, LB] @ inner m2 @ [RB, RB])"
    by blast
  from exec_loop_sound[OF m2] have ne: "inner m2 \<noteq> []" by simp
  from c show ?thesis
  proof
    assume a: "decide res path (inner m) = None \<and> inner m2 = inner m"
    with first_pass_no_throw[OF rs m] show ?thesis by auto
  next
    assume b: "decide res path (inner m) = Some ([LB, LB] @ inner m2 @ [RB, RB])"
    from op[OF m b] obtain r where r: "r \<in> set rs" "replacement r = [LB, LB] @ inner m2 @ [RB, RB]"
      by blast
    with H ne have "SLASH \<in> set (inner m2) \<or>
                    (\<forall>p'. res (inner m2) path = TFile p' \<longrightarrow> stripMd p' = inner m2)"
      by blast
    from settled_decide[of "inner m2" res path] this r show ?thesis by blast
  qed
qed

lemma second_pass_records_nothing:
  assumes rs: "replacements res path (exec_loop 0 t) = Inr rs"
    and H: "\<forall>r \<in> set rs. \<forall>q. replacement r = [LB, LB] @ q @ [RB, RB] \<longrightarrow>
              RB \<notin> set q \<and>
              (q = [] \<or> SLASH \<in> set q \<or> (\<forall>p'. res q path = TFile p' \<longrightarrow> stripMd p' = q))"
    and rs2: "replacements res path (exec_loop 0 (newContent t rs)) = Inr rs2"
  shows "rs2 = []"
proof (rule ccontr)
  assume "rs2 \<noteq> []"
  then obtain r where "r \<in> set rs2" by (cases rs2) auto
  from replacements_exec_op[OF rs2 this] obtain m2 u
    where "m2 \<in> set (exec_loop 0 (newContent t rs))" "decide res path (inner m2) = Some u"
    by blast
  with second_pass_matches[OF rs H] show False by auto
qed

lemma second_pass_empty:
  assumes rs: "replacements res path (exec_loop 0 t) = Inr rs"
    and H: "\<forall>r \<in> set rs. \<forall>q. replacement r = [LB, LB] @ q @ [RB, RB] \<longrightarrow>
              RB \<notin> set q \<and>
              (q = [] \<or> SLASH \<in> set q \<or> (\<forall>p'. res q path = TFile p' \<longrightarrow> stripMd p' = q))"
    and nt: "\<forall>r \<in> set rs. \<forall>q. replacement r = [LB, LB] @ q @ [RB, RB] \<longrightarrow> res q path \<noteq> Throws"
  shows "replacements res path (exec_loop 0 (newContent t rs)) = Inr []"
proof (rule replacements_skip_all, rule ballI)
  fix m2 assume m2: "m2 \<in> set (exec_loop 0 (newContent t rs))"
  from exec_loop_sound[OF m2] have wf: "fullMatch m2 = [LB, LB] @ inner m2 @ [RB, RB]" by simp
  from second_pass_matches[OF rs H m2] nt wf
  show "fullMatch m2 = [LB, LB] @ inner m2 @ [RB, RB] \<and>
        decide res path (inner m2) = None \<and>
        (SLASH \<in> set (inner m2) \<or> res (inner m2) path \<noteq> Throws)"
    by blast
qed

section \<open>C1: idempotence\<close>

text \<open>
  Claim C1, as the code has it. Let no call of the host throw. When the first pass ends
  with its list of replacements and every recorded replacement \<open>[[q]]\<close> is settled, that
  is, \<open>q\<close> contains no \<open>]\<close> and is empty, or contains a separator, or resolves, if it
  resolves to a file at all, to a path that is again \<open>q\<close> once \<open>.md\<close> is stripped, then
  the editor holds \<open>newContent\<close>, a second call leaves the editor as it is, and the
  second pass records no replacement; when the resolver throws for no such \<open>q\<close>, the
  second pass ends with the empty list and nothing is logged. When the resolver throws
  in the first pass, nothing is written and a second call changes nothing either.
\<close>

theorem idempotence_settled:
  assumes hq: "hostCallsReturn h"
    and af: "activeFile h = Some path"
  shows "(\<forall>e. replacements (getFirstLinkpathDest h) path (exec_loop 0 (doc ed)) = Inl e \<longrightarrow>
              fst (handleEditorChange h ed) = ed \<and>
              fst (handleEditorChange h (fst (handleEditorChange h ed)))
                = fst (handleEditorChange h ed)) \<and>
         (\<forall>rs. replacements (getFirstLinkpathDest h) path (exec_loop 0 (doc ed)) = Inr rs \<longrightarrow>
              (\<forall>r \<in> set rs. \<forall>q. replacement r = [LB, LB] @ q @ [RB, RB] \<longrightarrow>
                  RB \<notin> set q \<and>
                  (q = [] \<or> SLASH \<in> set q \<or>
                   (\<forall>p'. getFirstLinkpathDest h q path = TFile p' \<longrightarrow> stripMd p' = q))) \<longrightarrow>
              doc (fst (handleEditorChange h ed)) = newContent (doc ed) rs \<and>
              fst (handleEditorChange h (fst (handleEditorChange h ed)))
                = fst (handleEditorChange h ed) \<and>
              (\<forall>rs2. replacements (getFirstLinkpathDest h) path
                        (exec_loop 0 (doc (fst (handleEditorChange h ed)))) = Inr rs2 \<longrightarrow>
                     rs2 = []) \<and>
              ((\<forall>r \<in> set rs. \<forall>q. replacement r = [LB, LB] @ q @ [RB, RB] \<longrightarrow>
                   getFirstLinkpathDest h q path \<noteq> Throws) \<longrightarrow>
               replacements (getFirstLinkpathDest h) path
                 (exec_loop 0 (doc (fst (handleEditorChange h ed)))) = Inr [] \<and>
               handleEditorChange h (fst (handleEditorChange h ed))
                 = (fst (handleEditorChange h ed), None)))"
proof (intro conjI)
  from hq have g: "\<not> getActiveFileThrows h" and e: "\<not> editorReadThrows h"
    by (simp_all add: hostCallsReturn_def)
  note l = handleEditorChange_loop[OF g af e]
  show "\<forall>e. replacements (getFirstLinkpathDest h) path (exec_loop 0 (doc ed)) = Inl e \<longrightarrow>
              fst (handleEditorChange h ed) = ed \<and>
              fst (handleEditorChange h (fst (handleEditorChange h ed)))
                = fst (handleEditorChange h ed)"
  proof (intro allI impI)
    fix x
    assume "replacements (getFirstLinkpathDest h) path (exec_loop 0 (doc ed)) = Inl x"
    with l[of ed] have "handleEditorChange h ed = (ed, Some x)" by simp
    then show "fst (handleEditorChange h ed) = ed \<and>
               fst (handleEditorChange h (fst (handleEditorChange h ed))) = fst (handleEditorChange h ed)"
      by simp
  qed
  show "\<forall>rs. replacements (getFirstLinkpathDest h) path (exec_loop 0 (doc ed)) = Inr rs \<longrightarrow>
              (\<forall>r \<in> set rs. \<forall>q. replacement r = [LB, LB] @ q @ [RB, RB] \<longrightarrow>
                  RB \<notin> set q \<and>
                  (q = [] \<or> SLASH \<in> set q \<or>
                   (\<forall>p'. getFirstLinkpathDest h q path = TFile p' \<longrightarrow> stripMd p' = q))) \<longrightarrow>
              doc (fst (handleEditorChange h ed)) = newContent (doc ed) rs \<and>
              fst (handleEditorChange h (fst (handleEditorChange h ed)))
                = fst (handleEditorChange h ed) \<and>
              (\<forall>rs2. replacements (getFirstLinkpathDest h) path
                        (exec_loop 0 (doc (fst (handleEditorChange h ed)))) = Inr rs2 \<longrightarrow>
                     rs2 = []) \<and>
              ((\<forall>r \<in> set rs. \<forall>q. replacement r = [LB, LB] @ q @ [RB, RB] \<longrightarrow>
                   getFirstLinkpathDest h q path \<noteq> Throws) \<longrightarrow>
               replacements (getFirstLinkpathDest h) path
                 (exec_loop 0 (doc (fst (handleEditorChange h ed)))) = Inr [] \<and>
               handleEditorChange h (fst (handleEditorChange h ed))
                 = (fst (handleEditorChange h ed), None))"
  proof (intro allI impI)
    fix rs
    assume rs: "replacements (getFirstLinkpathDest h) path (exec_loop 0 (doc ed)) = Inr rs"
      and H: "\<forall>r \<in> set rs. \<forall>q. replacement r = [LB, LB] @ q @ [RB, RB] \<longrightarrow>
                  RB \<notin> set q \<and>
                  (q = [] \<or> SLASH \<in> set q \<or>
                   (\<forall>p'. getFirstLinkpathDest h q path = TFile p' \<longrightarrow> stripMd p' = q))"
    define ed1 where "ed1 = fst (handleEditorChange h ed)"
    from handleEditorChange_doc[OF hq af rs]
    have d: "doc ed1 = newContent (doc ed) rs" by (simp add: ed1_def)
    have none: "rs2 = []"
      if "replacements (getFirstLinkpathDest h) path (exec_loop 0 (doc ed1)) = Inr rs2" for rs2
      using second_pass_records_nothing[OF rs H] that d by simp
    have same: "fst (handleEditorChange h ed1) = ed1"
    proof (cases "replacements (getFirstLinkpathDest h) path (exec_loop 0 (doc ed1))")
      case (Inl x)
      with l[of ed1] show ?thesis by simp
    next
      case (Inr rs2)
      with none[OF Inr] l[of ed1] show ?thesis by simp
    qed
    have quiet: "replacements (getFirstLinkpathDest h) path (exec_loop 0 (doc ed1)) = Inr [] \<and>
                 handleEditorChange h ed1 = (ed1, None)"
      if nt: "\<forall>r \<in> set rs. \<forall>q. replacement r = [LB, LB] @ q @ [RB, RB] \<longrightarrow>
                   getFirstLinkpathDest h q path \<noteq> Throws"
    proof -
      from second_pass_empty[OF rs H nt] d
      have e2: "replacements (getFirstLinkpathDest h) path (exec_loop 0 (doc ed1)) = Inr []"
        by simp
      with handleEditorChange_no_ops[OF g af e e2] show ?thesis by simp
    qed
    from d none same quiet
    show "doc (fst (handleEditorChange h ed)) = newContent (doc ed) rs \<and>
              fst (handleEditorChange h (fst (handleEditorChange h ed)))
                = fst (handleEditorChange h ed) \<and>
              (\<forall>rs2. replacements (getFirstLinkpathDest h) path
                        (exec_loop 0 (doc (fst (handleEditorChange h ed)))) = Inr rs2 \<longrightarrow>
                     rs2 = []) \<and>
              ((\<forall>r \<in> set rs. \<forall>q. replacement r = [LB, LB] @ q @ [RB, RB] \<longrightarrow>
                   getFirstLinkpathDest h q path \<noteq> Throws) \<longrightarrow>
               replacements (getFirstLinkpathDest h) path
                 (exec_loop 0 (doc (fst (handleEditorChange h ed)))) = Inr [] \<and>
               handleEditorChange h (fst (handleEditorChange h ed))
                 = (fst (handleEditorChange h ed), None))"
      unfolding ed1_def by blast
  qed
qed

theorem idempotence_settled_witness:
  "hostCallsReturn root_host \<and>
   activeFile root_host = Some (utf16 ''n.md'') \<and>
   replacements (getFirstLinkpathDest root_host) (utf16 ''n.md'') (exec_loop 0 (doc root_editor))
     = Inr [\<lparr>start = 4, endIndex = 12, replacement = utf16 ''[[Note]]''\<rparr>] \<and>
   RB \<notin> set (utf16 ''Note'') \<and> SLASH \<notin> set (utf16 ''Note'') \<and>
   getFirstLinkpathDest root_host (utf16 ''Note'') (utf16 ''n.md'') = TFile (utf16 ''Note.md'') \<and>
   stripMd (utf16 ''Note.md'') = utf16 ''Note'' \<and>
   doc (fst (handleEditorChange root_host root_editor)) = utf16 ''See [[Note]].'' \<and>
   replacements (getFirstLinkpathDest root_host) (utf16 ''n.md'')
     (exec_loop 0 (doc (fst (handleEditorChange root_host root_editor)))) = Inr [] \<and>
   handleEditorChange root_host (fst (handleEditorChange root_host root_editor))
     = (fst (handleEditorChange root_host root_editor), None)"
proof -
  define rs where "rs = [\<lparr>start = 4, endIndex = 12, replacement = utf16 ''[[Note]]''\<rparr>]"
  have hq: "hostCallsReturn root_host"
    by (simp add: root_host_def hostCallsReturn_def)
  have af: "activeFile root_host = Some (utf16 ''n.md'')"
    by (simp add: root_host_def)
  have r: "replacements (getFirstLinkpathDest root_host) (utf16 ''n.md'')
             (exec_loop 0 (doc root_editor)) = Inr rs"
    using root_ops by (simp add: rs_def)
  have b: "RB \<notin> set (utf16 ''Note'')" "SLASH \<notin> set (utf16 ''Note'')"
    by (simp_all add: utf16_def)
  have n: "getFirstLinkpathDest root_host (utf16 ''Note'') (utf16 ''n.md'') = TFile (utf16 ''Note.md'')"
    by (simp add: root_host_def)
  have br: "utf16 ''[[Note]]'' = [LB, LB] @ utf16 ''Note'' @ [RB, RB]"
    by (simp add: utf16_def)
  have q: "q = utf16 ''Note''" if "replacement r' = [LB, LB] @ q @ [RB, RB]" "r' \<in> set rs" for r' q
    using that unfolding rs_def by (simp add: br)
  have H: "\<forall>r \<in> set rs. \<forall>q. replacement r = [LB, LB] @ q @ [RB, RB] \<longrightarrow>
                  RB \<notin> set q \<and>
                  (q = [] \<or> SLASH \<in> set q \<or>
                   (\<forall>p'. getFirstLinkpathDest root_host q (utf16 ''n.md'') = TFile p' \<longrightarrow>
                        stripMd p' = q))"
    using q b(1) n root_stripMd by auto
  have nt: "\<forall>r \<in> set rs. \<forall>q. replacement r = [LB, LB] @ q @ [RB, RB] \<longrightarrow>
                   getFirstLinkpathDest root_host q (utf16 ''n.md'') \<noteq> Throws"
    using q n by auto
  note th = idempotence_settled[OF hq af, of root_editor]
  from th r H have d: "doc (fst (handleEditorChange root_host root_editor)) = utf16 ''See [[Note]].''"
    using root_newContent by (simp add: rs_def)
  from th r H nt
  have e: "replacements (getFirstLinkpathDest root_host) (utf16 ''n.md'')
     (exec_loop 0 (doc (fst (handleEditorChange root_host root_editor)))) = Inr []"
    and s: "handleEditorChange root_host (fst (handleEditorChange root_host root_editor))
     = (fst (handleEditorChange root_host root_editor), None)"
    by blast+
  from hq af r b n root_stripMd d e s show ?thesis unfolding rs_def by blast
qed

text \<open>
  Claim C1 as stated, for every resolver, fails: a path without a separator is resolved
  again on the second run. Here the first run turns \<open>[[x.md.md]]\<close> into \<open>[[x.md]]\<close> and
  the second run turns that into \<open>[[x]]\<close>.
\<close>

theorem idempotence_counterexample:
  "fst (handleEditorChange double_ext_host double_ext_editor)
     = \<lparr>doc = utf16 ''[[x.md]]'', cursor = 0\<rparr> \<and>
   replacements (getFirstLinkpathDest double_ext_host) (utf16 ''n.md'')
     (exec_loop 0 (utf16 ''[[x.md]]''))
     = Inr [\<lparr>start = 0, endIndex = 8, replacement = utf16 ''[[x]]''\<rparr>] \<and>
   fst (handleEditorChange double_ext_host \<lparr>doc = utf16 ''[[x.md]]'', cursor = 0\<rparr>)
     = \<lparr>doc = utf16 ''[[x]]'', cursor = 0\<rparr>"
  unfolding double_ext_host_def double_ext_editor_def by code_simp

section \<open>C2: faults\<close>

text \<open>
  Claim C2, as the code has it. An error raised before the new text is written is caught
  by the outer \<open>catch\<close> and logged, and the editor is exactly as before the call: that is
  so when \<open>getActiveFile\<close> throws, when reading the editor throws, when the resolver
  throws for any occurrence without a separator (whatever the other occurrences resolve
  to), and when \<open>setValue\<close> throws without having written. An error raised once the new
  text is written does not undo the write: when \<open>setValue\<close> throws after writing, the
  new text stays and the error is logged; when placing the cursor throws, the new text
  stays and the cursor is put at its end, and when that throws as well the outer
  \<open>catch\<close> logs the error with the new text in place.
\<close>

theorem fault_containment:
  assumes af: "activeFile h = Some path"
  shows "(getActiveFileThrows h \<longrightarrow> handleEditorChange h ed = (ed, Some ActiveFileFault)) \<and>
         (\<not> getActiveFileThrows h \<longrightarrow>
            (editorReadThrows h \<longrightarrow> handleEditorChange h ed = (ed, Some ReadFault)) \<and>
            (\<not> editorReadThrows h \<longrightarrow>
               ((\<exists>m \<in> set (exec_loop 0 (doc ed)).
                    SLASH \<notin> set (inner m) \<and> getFirstLinkpathDest h (inner m) path = Throws) \<longrightarrow>
                  handleEditorChange h ed = (ed, Some ResolveFault)) \<and>
               (\<forall>rs. replacements (getFirstLinkpathDest h) path (exec_loop 0 (doc ed)) = Inr rs \<longrightarrow>
                  rs \<noteq> [] \<longrightarrow>
                  newContent (doc ed) rs \<noteq> doc ed \<and>
                  (setValueDoes h ed (newContent (doc ed) rs) = ThrewUnwritten \<longrightarrow>
                     handleEditorChange h ed = (ed, Some WriteFault)) \<and>
                  (setValueDoes h ed (newContent (doc ed) rs) = ThrewWritten \<longrightarrow>
                     doc (fst (handleEditorChange h ed)) = newContent (doc ed) rs \<and>
                     snd (handleEditorChange h ed) = Some WriteFault) \<and>
                  (setValueDoes h ed (newContent (doc ed) rs) = Written \<longrightarrow>
                   setCursorThrows h (newContent (doc ed) rs)
                     (newOffset (cursor ed) (sortDesc rs) (newContent (doc ed) rs)) \<longrightarrow>
                     doc (fst (handleEditorChange h ed)) = newContent (doc ed) rs \<and>
                     (if setCursorThrows h (newContent (doc ed) rs)
                           (int (length (newContent (doc ed) rs)))
                      then snd (handleEditorChange h ed) = Some CursorFault
                      else cursor (fst (handleEditorChange h ed))
                             = int (length (newContent (doc ed) rs)) \<and>
                           snd (handleEditorChange h ed) = None)))))"
proof (intro conjI impI allI)
  assume "getActiveFileThrows h"
  then show "handleEditorChange h ed = (ed, Some ActiveFileFault)"
    by (simp add: handleEditorChange_def)
next
  assume "\<not> getActiveFileThrows h" "editorReadThrows h"
  with af show "handleEditorChange h ed = (ed, Some ReadFault)"
    by (simp add: handleEditorChange_def)
next
  assume g: "\<not> getActiveFileThrows h" and e: "\<not> editorReadThrows h"
    and "\<exists>m \<in> set (exec_loop 0 (doc ed)).
           SLASH \<notin> set (inner m) \<and> getFirstLinkpathDest h (inner m) path = Throws"
  then have "replacements (getFirstLinkpathDest h) path (exec_loop 0 (doc ed)) = Inl ResolveFault"
    by (simp add: resolver_throw_iff)
  with handleEditorChange_loop[OF g af e, of ed]
  show "handleEditorChange h ed = (ed, Some ResolveFault)" by simp
next
  fix rs
  assume g: "\<not> getActiveFileThrows h" and e: "\<not> editorReadThrows h"
    and rs: "replacements (getFirstLinkpathDest h) path (exec_loop 0 (doc ed)) = Inr rs"
    and ne: "rs \<noteq> []"
  note l = handleEditorChange_loop[OF g af e, of ed]
  from changed_text[OF rs ne] show "newContent (doc ed) rs \<noteq> doc ed" .
  {
    assume "setValueDoes h ed (newContent (doc ed) rs) = ThrewUnwritten"
    with l rs ne show "handleEditorChange h ed = (ed, Some WriteFault)"
      by (simp add: Let_def)
  }
  {
    assume w: "setValueDoes h ed (newContent (doc ed) rs) = ThrewWritten"
    with l rs ne show "doc (fst (handleEditorChange h ed)) = newContent (doc ed) rs"
      by (simp add: Let_def setValue_def)
    from w l rs ne show "snd (handleEditorChange h ed) = Some WriteFault"
      by (simp add: Let_def)
  }
  {
    assume w: "setValueDoes h ed (newContent (doc ed) rs) = Written"
      and th: "setCursorThrows h (newContent (doc ed) rs)
                 (newOffset (cursor ed) (sortDesc rs) (newContent (doc ed) rs))"
    from w th l rs ne show "doc (fst (handleEditorChange h ed)) = newContent (doc ed) rs"
      by (simp add: Let_def setValue_def)
    from w th l rs ne
    show "if setCursorThrows h (newContent (doc ed) rs) (int (length (newContent (doc ed) rs)))
          then snd (handleEditorChange h ed) = Some CursorFault
          else cursor (fst (handleEditorChange h ed)) = int (length (newContent (doc ed) rs)) \<and>
               snd (handleEditorChange h ed) = None"
      by (simp add: Let_def setValue_def)
  }
qed

theorem fault_containment_witness:
  "handleEditorChange no_workspace_host exampleA_editor = (exampleA_editor, Some ActiveFileFault) \<and>
   handleEditorChange unreadable_host exampleA_editor = (exampleA_editor, Some ReadFault) \<and>
   getFirstLinkpathDest broken_host (utf16 ''Project'') (utf16 ''n.md'')
     = TFile (utf16 ''areas/work/Project.md'') \<and>
   getFirstLinkpathDest broken_host (utf16 ''Broken'') (utf16 ''n.md'') = Throws \<and>
   handleEditorChange broken_host broken_editor = (broken_editor, Some ResolveFault) \<and>
   handleEditorChange readonly_host exampleA_editor = (exampleA_editor, Some WriteFault) \<and>
   doc (fst (handleEditorChange halfway_host exampleA_editor))
     = utf16 ''See [[areas/work/Project]] for details.'' \<and>
   snd (handleEditorChange halfway_host exampleA_editor) = Some WriteFault \<and>
   doc (fst (handleEditorChange fallback_host exampleA_editor))
     = utf16 ''See [[areas/work/Project]] for details.'' \<and>
   cursor (fst (handleEditorChange fallback_host exampleA_editor)) = 39 \<and>
   snd (handleEditorChange fallback_host exampleA_editor) = None"
proof -
  define rs where
    "rs = [\<lparr>start = 4, endIndex = 15, replacement = utf16 ''[[areas/work/Project]]''\<rparr>]"
  define nc where "nc = utf16 ''See [[areas/work/Project]] for details.''"
  have ne: "rs \<noteq> []" by (simp add: rs_def)
  have ops: "replacements (getFirstLinkpathDest exampleA_host) (utf16 ''n.md'')
               (exec_loop 0 (doc exampleA_editor)) = Inr rs"
    using exA_ops by (simp add: rs_def)
  have nc: "newContent (doc exampleA_editor) rs = nc"
    using exA_newContent by (simp add: rs_def nc_def)
  have 1: "handleEditorChange no_workspace_host exampleA_editor
             = (exampleA_editor, Some ActiveFileFault)"
    using fault_containment[of no_workspace_host "utf16 ''n.md''" exampleA_editor]
    by (simp add: no_workspace_host_def exampleA_host_def)
  have 2: "handleEditorChange unreadable_host exampleA_editor = (exampleA_editor, Some ReadFault)"
    using fault_containment[of unreadable_host "utf16 ''n.md''" exampleA_editor]
    by (simp add: unreadable_host_def exampleA_host_def)
  have p: "getFirstLinkpathDest broken_host (utf16 ''Project'') (utf16 ''n.md'')
             = TFile (utf16 ''areas/work/Project.md'')"
    and b: "getFirstLinkpathDest broken_host (utf16 ''Broken'') (utf16 ''n.md'') = Throws"
    by (simp_all add: broken_host_def utf16_def)
  have "\<exists>m \<in> set (exec_loop 0 (doc broken_editor)).
          SLASH \<notin> set (inner m) \<and> getFirstLinkpathDest broken_host (inner m) (utf16 ''n.md'') = Throws"
    unfolding broken_matches using b by (simp add: utf16_def)
  with fault_containment[of broken_host "utf16 ''n.md''" broken_editor]
  have 3: "handleEditorChange broken_host broken_editor = (broken_editor, Some ResolveFault)"
    by (simp add: broken_host_def)
  have ops4: "replacements (getFirstLinkpathDest readonly_host) (utf16 ''n.md'')
               (exec_loop 0 (doc exampleA_editor)) = Inr rs"
    using ops by (simp add: readonly_host_def)
  from fault_containment[of readonly_host "utf16 ''n.md''" exampleA_editor] ops4 ne
  have 4: "handleEditorChange readonly_host exampleA_editor = (exampleA_editor, Some WriteFault)"
    by (simp add: readonly_host_def exampleA_host_def)
  have ops5: "replacements (getFirstLinkpathDest halfway_host) (utf16 ''n.md'')
               (exec_loop 0 (doc exampleA_editor)) = Inr rs"
    using ops by (simp add: halfway_host_def)
  from fault_containment[of halfway_host "utf16 ''n.md''" exampleA_editor] ops5 ne
  have 5: "doc (fst (handleEditorChange halfway_host exampleA_editor)) = nc"
    "snd (handleEditorChange halfway_host exampleA_editor) = Some WriteFault"
    by (simp_all add: halfway_host_def exampleA_host_def nc)
  have ops6: "replacements (getFirstLinkpathDest fallback_host) (utf16 ''n.md'')
               (exec_loop 0 (doc exampleA_editor)) = Inr rs"
    using ops by (simp add: fallback_host_def)
  have no: "newOffset (cursor exampleA_editor) (sortDesc rs) nc = 31"
    using exA_newOffset by (simp add: rs_def nc_def)
  have len: "int (length nc) = 39" by (simp add: nc_def utf16_def)
  from fault_containment[of fallback_host "utf16 ''n.md''" exampleA_editor] ops6 ne
  have 6: "doc (fst (handleEditorChange fallback_host exampleA_editor)) = nc"
    "cursor (fst (handleEditorChange fallback_host exampleA_editor)) = 39"
    "snd (handleEditorChange fallback_host exampleA_editor) = None"
    by (simp_all add: fallback_host_def exampleA_host_def nc no len)
  from 1 2 p b 3 4 5 6 show ?thesis unfolding nc_def by blast
qed

text \<open>
  Claim C2 as stated fails where \<open>setCursor\<close> throws twice: the error reaches the outer
  \<open>catch\<close>, and the document has already been rewritten.
\<close>

theorem fault_after_write_counterexample:
  "snd (handleEditorChange stuck_host exampleA_editor) = Some CursorFault \<and>
   doc (fst (handleEditorChange stuck_host exampleA_editor))
     = utf16 ''See [[areas/work/Project]] for details.'' \<and>
   doc (fst (handleEditorChange stuck_host exampleA_editor)) \<noteq> doc exampleA_editor"
  unfolding stuck_host_def exampleA_host_def exampleA_editor_def by code_simp

section \<open>C3: cursor remapping\<close>

text \<open>
  Claim C3. When a file is active, no call of the host throws (the resolver for no
  occurrence), and the cursor is an offset into the document, the editor ends with
  the text \<open>newContent\<close> and with the cursor at the original offset plus the sum of
  \<open>length replacement - (end - start)\<close> over exactly the replacements whose \<open>start\<close> is
  strictly less than the original offset, clamped into \<open>[0, length newContent]\<close>.
  Replacements that start at or after the cursor contribute nothing.
\<close>

theorem cursor_remapping:
  assumes hq: "hostCallsReturn h"
    and af: "activeFile h = Some path"
    and rs: "replacements (getFirstLinkpathDest h) path (exec_loop 0 (doc ed)) = Inr rs"
    and c0: "0 \<le> cursor ed" and c1: "cursor ed \<le> int (length (doc ed))"
    and nt: "\<forall>t n. \<not> setCursorThrows h t n"
  shows "doc (fst (handleEditorChange h ed)) = newContent (doc ed) rs \<and>
         cursor (fst (handleEditorChange h ed)) =
           (let x = cursor ed +
                    (\<Sum>r\<leftarrow>filter (\<lambda>r. int (start r) < cursor ed) rs.
                        int (length (replacement r)) - (int (endIndex r) - int (start r)));
                len = int (length (newContent (doc ed) rs))
            in if x < 0 then 0 else if len < x then len else x)"
proof (cases "rs = []")
  case True
  from hq have "\<not> getActiveFileThrows h" "\<not> editorReadThrows h"
    by (simp_all add: hostCallsReturn_def)
  from handleEditorChange_no_ops[OF this(1) af this(2)] True rs c0 c1 show ?thesis by simp
next
  case False
  have d: "deltaBefore (cursor ed) (sortDesc rs) =
           (\<Sum>r\<leftarrow>filter (\<lambda>r. int (start r) < cursor ed) rs.
               int (length (replacement r)) - (int (endIndex r) - int (start r)))"
    using deltaBefore_sortDesc[OF rs, of "cursor ed"] by (simp add: delta_def[abs_def])
  from handleEditorChange_written[OF hq af rs False] nt
  show ?thesis
    by (simp add: Let_def setValue_def newOffset_def d)
qed

theorem cursor_remapping_witness:
  "hostCallsReturn exampleA_host \<and>
   activeFile exampleA_host = Some (utf16 ''n.md'') \<and>
   replacements (getFirstLinkpathDest exampleA_host) (utf16 ''n.md'')
     (exec_loop 0 (doc exampleA_editor))
     = Inr [\<lparr>start = 4, endIndex = 15, replacement = utf16 ''[[areas/work/Project]]''\<rparr>] \<and>
   0 \<le> cursor exampleA_editor \<and>
   cursor exampleA_editor \<le> int (length (doc exampleA_editor)) \<and>
   (\<forall>t n. \<not> setCursorThrows exampleA_host t n) \<and>
   doc (fst (handleEditorChange exampleA_host exampleA_editor))
     = utf16 ''See [[areas/work/Project]] for details.'' \<and>
   cursor (fst (handleEditorChange exampleA_host exampleA_editor)) = 31"
proof -
  define rs where
    "rs = [\<lparr>start = 4, endIndex = 15, replacement = utf16 ''[[areas/work/Project]]''\<rparr>]"
  have hq: "hostCallsReturn exampleA_host"
    by (simp add: exampleA_host_def hostCallsReturn_def)
  have af: "activeFile exampleA_host = Some (utf16 ''n.md'')"
    by (simp add: exampleA_host_def)
  have r: "replacements (getFirstLinkpathDest exampleA_host) (utf16 ''n.md'')
             (exec_loop 0 (doc exampleA_editor)) = Inr rs"
    unfolding exampleA_host_def exampleA_editor_def rs_def by code_simp
  have c: "0 \<le> cursor exampleA_editor"
    "cursor exampleA_editor \<le> int (length (doc exampleA_editor))"
    by (simp_all add: exampleA_editor_def utf16_def)
  have nt: "\<forall>t n. \<not> setCursorThrows exampleA_host t n"
    by (simp add: exampleA_host_def)
  have nc: "newContent (doc exampleA_editor) rs = utf16 ''See [[areas/work/Project]] for details.''"
    unfolding exampleA_editor_def rs_def by code_simp
  from cursor_remapping[OF hq af r c nt]
  have "doc (fst (handleEditorChange exampleA_host exampleA_editor))
          = utf16 ''See [[areas/work/Project]] for details.''"
    and "cursor (fst (handleEditorChange exampleA_host exampleA_editor)) = 31"
    unfolding nc by (simp_all add: rs_def exampleA_editor_def utf16_def)
  with hq af r c nt show ?thesis unfolding rs_def by blast
qed

section \<open>C4: concealment range\<close>

text \<open>
  Claim C4. For every window in \<open>visibleRanges\<close> and every match found in it: when the
  inner text contains a separator, it is \<open>pre / name\<close> with no separator in \<open>name\<close>, and
  the one range added for the match starts at the absolute offset just after the opening
  \<open>[[\<close>, covers exactly \<open>pre /\<close> in the document (so it ends with the last separator),
  and stops before \<open>name ]]\<close>; the range is among those \<open>buildDecorations\<close> returns.
  When the inner text has no separator, nothing is added for the match.
\<close>

theorem concealment_range:
  assumes w: "(wfrom, wto) \<in> set visibleRanges"
    and m: "m \<in> set (exec_loop 0 (slice_str t wfrom wto))"
  shows "(SLASH \<in> set (inner m) \<longrightarrow>
           (\<exists>pre name a b.
              inner m = pre @ [SLASH] @ name \<and> SLASH \<notin> set name \<and>
              a = wfrom + index m + 2 \<and> b = a + length pre + 1 \<and>
              decorate wfrom m = [(a, b)] \<and>
              (a, b) \<in> set (buildDecorations True t visibleRanges) \<and>
              slice_str t (wfrom + index m) (b + length name + 2)
                = [LB, LB] @ pre @ [SLASH] @ name @ [RB, RB] \<and>
              slice_str t a b = pre @ [SLASH])) \<and>
         (SLASH \<notin> set (inner m) \<longrightarrow> decorate wfrom m = [])"
proof (intro conjI impI)
  assume sl: "SLASH \<in> set (inner m)"
  with decorate_cases[of m wfrom] obtain pre name
    where p: "inner m = pre @ [SLASH] @ name" "SLASH \<notin> set name"
      and d: "decorate wfrom m = [(wfrom + index m + 2, wfrom + index m + 2 + length pre + 1)]"
    by blast
  define a where "a = wfrom + index m + 2"
  define b where "b = a + length pre + 1"
  from exec_loop_sound[OF m] have fm: "fullMatch m = [LB, LB] @ inner m @ [RB, RB]" by simp
  have len: "length (fullMatch m) = length pre + length name + 5"
    by (simp add: fm p(1))
  from window_occurrence(1)[OF m]
  have occ: "slice_str t (wfrom + index m) (wfrom + index m + length (fullMatch m))
             = [LB, LB] @ (pre @ [SLASH]) @ (name @ [RB, RB])"
    by (simp add: fm p(1))
  have e: "wfrom + index m + length (fullMatch m) = b + length name + 2"
    by (simp add: len a_def b_def)
  from slice_slice(1)[OF occ]
  have rng: "slice_str t a b = pre @ [SLASH]"
    by (simp add: a_def b_def add.assoc)
  have "(a, b) \<in> set (buildDecorations True t visibleRanges)"
    using in_buildDecorations[OF w m, of "(a, b)"] d by (simp add: a_def b_def)
  with p d occ rng e
  show "\<exists>pre name a b.
              inner m = pre @ [SLASH] @ name \<and> SLASH \<notin> set name \<and>
              a = wfrom + index m + 2 \<and> b = a + length pre + 1 \<and>
              decorate wfrom m = [(a, b)] \<and>
              (a, b) \<in> set (buildDecorations True t visibleRanges) \<and>
              slice_str t (wfrom + index m) (b + length name + 2)
                = [LB, LB] @ pre @ [SLASH] @ name @ [RB, RB] \<and>
              slice_str t a b = pre @ [SLASH]"
    by (intro exI[of _ pre] exI[of _ name] exI[of _ a] exI[of _ b]) (simp add: a_def b_def)
next
  assume "SLASH \<notin> set (inner m)"
  then show "decorate wfrom m = []" by (simp add: decorate_def)
qed

theorem concealment_range_witness:
  "(0, 28) \<in> set [(0::nat, 28::nat)] \<and>
   \<lparr>index = 6, fullMatch = utf16 ''[[areas/work/Project]]'', inner = utf16 ''areas/work/Project''\<rparr>
     \<in> set (exec_loop 0 (slice_str exampleC_doc 0 28)) \<and>
   SLASH \<in> set (utf16 ''areas/work/Project'') \<and>
   decorate 0 \<lparr>index = 6, fullMatch = utf16 ''[[areas/work/Project]]'',
               inner = utf16 ''areas/work/Project''\<rparr> = [(8, 19)] \<and>
   (8, 19) \<in> set (buildDecorations True exampleC_doc [(0, 28)]) \<and>
   slice_str exampleC_doc 8 19 = utf16 ''areas/work/''"
proof -
  define m where "m = \<lparr>index = 6, fullMatch = utf16 ''[[areas/work/Project]]'',
                       inner = utf16 ''areas/work/Project''\<rparr>"
  have w: "(0, 28) \<in> set [(0::nat, 28::nat)]" by simp
  have mm: "m \<in> set (exec_loop 0 (slice_str exampleC_doc 0 28))"
    unfolding exampleC_matches m_def by simp
  have sl: "SLASH \<in> set (inner m)" by (simp add: m_def utf16_def)
  have d: "decorate 0 m = [(8, 19)]" unfolding m_def by (rule exampleC_decorate)
  from concealment_range[OF w mm] sl obtain pre a b
    where "decorate 0 m = [(a, b)]"
      and "(a, b) \<in> set (buildDecorations True exampleC_doc [(0, 28)])"
      and "slice_str exampleC_doc a b = pre @ [SLASH]"
    by blast
  with d have "(8, 19) \<in> set (buildDecorations True exampleC_doc [(0, 28)])"
    and "slice_str exampleC_doc 8 19 = pre @ [SLASH]" by simp_all
  with w mm sl d exampleC_slice show ?thesis unfolding m_def by simp
qed

section \<open>C5: full-path preservation\<close>

text \<open>
  Claim C5. For every document text and every host (whatever the resolver returns or
  throws), an occurrence whose inner text contains a separator keeps its literal text in
  the document after \<open>handleEditorChange\<close>. No replacement is recorded for it: every
  replacement of a completed pass lies entirely before or entirely after the occurrence,
  whose text is in \<open>newContent\<close> at its index moved by the length changes of the
  replacements before it.
\<close>

theorem full_path_preservation:
  assumes m: "m \<in> set (exec_loop 0 (doc ed))"
    and sl: "SLASH \<in> set (inner m)"
  shows "(\<exists>pre suf. doc (fst (handleEditorChange h ed)) = pre @ fullMatch m @ suf) \<and>
         (\<forall>path rs.
            replacements (getFirstLinkpathDest h) path (exec_loop 0 (doc ed)) = Inr rs \<longrightarrow>
            (\<forall>r \<in> set rs. endIndex r \<le> index m \<or> index m + length (fullMatch m) \<le> start r) \<and>
            (\<exists>pre suf. newContent (doc ed) rs = pre @ fullMatch m @ suf \<and>
               int (length pre) = int (index m) +
                 (\<Sum>r\<leftarrow>filter (\<lambda>r. start r < index m) rs.
                     int (length (replacement r)) - (int (endIndex r) - int (start r)))))"
proof (intro conjI allI impI)
  have d: "decide (getFirstLinkpathDest h) path (inner m) = None" for path
    using sl by (simp add: decide_def)
  from kept_in_document[OF m d]
  show "\<exists>pre suf. doc (fst (handleEditorChange h ed)) = pre @ fullMatch m @ suf" .
  fix path rs
  assume rs: "replacements (getFirstLinkpathDest h) path (exec_loop 0 (doc ed)) = Inr rs"
  from untouched_span[OF rs m d]
  show "\<forall>r \<in> set rs. endIndex r \<le> index m \<or> index m + length (fullMatch m) \<le> start r"
    by blast
  from kept_occurrence[OF m rs d] newContent_rewritten[OF rs]
  show "\<exists>pre suf. newContent (doc ed) rs = pre @ fullMatch m @ suf \<and>
               int (length pre) = int (index m) +
                 (\<Sum>r\<leftarrow>filter (\<lambda>r. start r < index m) rs.
                     int (length (replacement r)) - (int (endIndex r) - int (start r)))"
    by (simp add: delta_def[abs_def])
qed

theorem full_path_preservation_witness:
  "\<lparr>index = 12, fullMatch = utf16 ''[[areas/old/Project]]'', inner = utf16 ''areas/old/Project''\<rparr>
     \<in> set (exec_loop 0 (doc mixed_editor)) \<and>
   SLASH \<in> set (utf16 ''areas/old/Project'') \<and>
   replacements (getFirstLinkpathDest exampleA_host) (utf16 ''n.md'') (exec_loop 0 (doc mixed_editor))
     = Inr [\<lparr>start = 0, endIndex = 11, replacement = utf16 ''[[areas/work/Project]]''\<rparr>] \<and>
   (\<exists>pre suf.
      newContent (doc mixed_editor)
        [\<lparr>start = 0, endIndex = 11, replacement = utf16 ''[[areas/work/Project]]''\<rparr>]
        = pre @ utf16 ''[[areas/old/Project]]'' @ suf \<and> int (length pre) = 23) \<and>
   (\<exists>pre suf. doc (fst (handleEditorChange exampleA_host mixed_editor))
        = pre @ utf16 ''[[areas/old/Project]]'' @ suf)"
proof -
  define m where "m = \<lparr>index = 12, fullMatch = utf16 ''[[areas/old/Project]]'',
                       inner = utf16 ''areas/old/Project''\<rparr>"
  define rs where "rs = [\<lparr>start = 0, endIndex = 11, replacement = utf16 ''[[areas/work/Project]]''\<rparr>]"
  have r: "replacements (getFirstLinkpathDest exampleA_host) (utf16 ''n.md'')
             (exec_loop 0 (doc mixed_editor)) = Inr rs"
    using mixed_ops by (simp add: rs_def mixed_editor_def)
  have mm: "m \<in> set (exec_loop 0 (doc mixed_editor))"
    unfolding mixed_editor_def m_def by (simp add: mixed_matches)
  have sl: "SLASH \<in> set (inner m)"
    by (simp add: m_def utf16_def)
  note th = full_path_preservation[OF mm sl, of exampleA_host]
  from th have k: "\<exists>pre suf. doc (fst (handleEditorChange exampleA_host mixed_editor))
        = pre @ fullMatch m @ suf"
    by blast
  from th r have "\<exists>pre suf. newContent (doc mixed_editor) rs = pre @ fullMatch m @ suf \<and>
               int (length pre) = int (index m) +
                 (\<Sum>r\<leftarrow>filter (\<lambda>r. start r < index m) rs.
                     int (length (replacement r)) - (int (endIndex r) - int (start r)))"
    by blast
  then have n: "\<exists>pre suf. newContent (doc mixed_editor) rs = pre @ utf16 ''[[areas/old/Project]]'' @ suf \<and>
          int (length pre) = 23"
    by (simp add: m_def rs_def utf16_def)
  from k have k': "\<exists>pre suf. doc (fst (handleEditorChange exampleA_host mixed_editor))
        = pre @ utf16 ''[[areas/old/Project]]'' @ suf"
    by (simp add: m_def)
  from mm sl r n k' show ?thesis unfolding m_def rs_def by simp
qed

section \<open>C6: concealment disabled\<close>

text \<open>
  Claim C6. With \<open>displayAsShortName\<close> off, \<open>buildDecorations\<close> returns no range, for
  every document and every list of visible ranges.
\<close>

theorem concealment_disabled:
  "buildDecorations False t visibleRanges = []"
  by (simp add: buildDecorations_def)

section \<open>C7: ordered, non-overlapping ranges\<close>

text \<open>
  Claim C7. When the visible ranges are ordered and disjoint (each ends at or before the
  start of every later one), the ranges of one build pass are in the order of their
  starts and do not overlap: each ends at or before the start of every later one, and
  each is non-empty.
\<close>

theorem concealment_ordered:
  assumes "sorted_wrt (\<lambda>w1 w2. snd w1 \<le> fst w2) visibleRanges"
  shows "sorted_wrt (\<lambda>r1 r2. snd r1 \<le> fst r2 \<and> fst r1 \<le> fst r2)
           (buildDecorations displayAsShortName t visibleRanges) \<and>
         (\<forall>r \<in> set (buildDecorations displayAsShortName t visibleRanges). fst r < snd r)"
proof (cases displayAsShortName)
  case False
  then show ?thesis by (simp add: buildDecorations_def)
next
  case True
  have s: "sorted_wrt (\<lambda>r1 r2. snd r1 \<le> fst r2 \<and> fst r1 \<le> fst r2)
             (concat (map (windowRanges t) visibleRanges))"
  proof (rule concat_sorted)
    show "\<forall>w \<in> set visibleRanges.
            sorted_wrt (\<lambda>r1 r2. snd r1 \<le> fst r2 \<and> fst r1 \<le> fst r2) (windowRanges t w)"
      using windowRanges_sorted by blast
    have "\<forall>a \<in> set (windowRanges t x). \<forall>b \<in> set (windowRanges t y).
            snd a \<le> fst b \<and> fst a \<le> fst b"
      if "snd x \<le> fst y" for x y
    proof (intro ballI)
      fix a b assume "a \<in> set (windowRanges t x)" "b \<in> set (windowRanges t y)"
      from windowRanges_bounds[OF this(1)] windowRanges_bounds[OF this(2)] that
      show "snd a \<le> fst b \<and> fst a \<le> fst b" by linarith
    qed
    then show "sorted_wrt (\<lambda>x y. \<forall>a \<in> set (windowRanges t x). \<forall>b \<in> set (windowRanges t y).
                   snd a \<le> fst b \<and> fst a \<le> fst b) visibleRanges"
      by (rule sorted_wrt_mono_rel[OF _ assms]) blast
  qed
  have "fst r < snd r" if "r \<in> set (concat (map (windowRanges t) visibleRanges))" for r
    using that windowRanges_bounds by fastforce
  with s True show ?thesis
    by (simp add: buildDecorations_windows)
qed

theorem concealment_ordered_witness:
  "sorted_wrt (\<lambda>w1 w2. snd w1 \<le> fst w2) [(0::nat, 23::nat), (28, 35)] \<and>
   buildDecorations True two_window_doc [(0, 23), (28, 35)] = [(2, 4), (16, 20), (30, 32)] \<and>
   sorted_wrt (\<lambda>r1 r2. snd r1 \<le> fst r2 \<and> fst r1 \<le> fst r2)
     (buildDecorations True two_window_doc [(0, 23), (28, 35)])"
proof -
  have w: "sorted_wrt (\<lambda>w1 w2. snd w1 \<le> fst w2) [(0::nat, 23::nat), (28, 35)]" by simp
  from concealment_ordered[OF w, of True two_window_doc] w two_window_ranges
  show ?thesis by blast
qed

section \<open>C8: unresolvable preservation\<close>

text \<open>
  Claim C8. An occurrence for which the resolver returns \<open>null\<close> or something that is not
  a \<open>TFile\<close> keeps its literal text in the document after \<open>handleEditorChange\<close>. Its
  failure does not stop the pass: when the resolver throws for no occurrence, the pass
  ends with its list of replacements, none of which touches that occurrence, whose text
  is in \<open>newContent\<close> at its index moved by the length changes of the replacements
  before it; every other occurrence that has no separator and resolves to a different
  text has its replacement recorded, and that replacement text is in \<open>newContent\<close> at
  the occurrence's index, moved in the same way; and when no call of the host throws,
  \<open>newContent\<close> is the document that \<open>handleEditorChange\<close> leaves.
\<close>

theorem unresolvable_preservation:
  assumes af: "activeFile h = Some path"
    and m: "m \<in> set (exec_loop 0 (doc ed))"
    and un: "getFirstLinkpathDest h (inner m) path = Null \<or>
             getFirstLinkpathDest h (inner m) path = NotTFile"
  shows "(\<exists>pre suf. doc (fst (handleEditorChange h ed)) = pre @ fullMatch m @ suf) \<and>
         ((\<forall>m' \<in> set (exec_loop 0 (doc ed)).
              SLASH \<notin> set (inner m') \<longrightarrow> getFirstLinkpathDest h (inner m') path \<noteq> Throws) \<longrightarrow>
          (\<exists>rs. replacements (getFirstLinkpathDest h) path (exec_loop 0 (doc ed)) = Inr rs \<and>
             (hostCallsReturn h \<longrightarrow> doc (fst (handleEditorChange h ed)) = newContent (doc ed) rs) \<and>
             (\<forall>r \<in> set rs. endIndex r \<le> index m \<or> index m + length (fullMatch m) \<le> start r) \<and>
             (\<exists>pre suf. newContent (doc ed) rs = pre @ fullMatch m @ suf \<and>
                int (length pre) = int (index m) +
                  (\<Sum>r\<leftarrow>filter (\<lambda>r. start r < index m) rs.
                      int (length (replacement r)) - (int (endIndex r) - int (start r)))) \<and>
             (\<forall>m' \<in> set (exec_loop 0 (doc ed)). \<forall>p.
                 SLASH \<notin> set (inner m') \<longrightarrow>
                 getFirstLinkpathDest h (inner m') path = TFile p \<longrightarrow>
                 [LB, LB] @ stripMd p @ [RB, RB] \<noteq> fullMatch m' \<longrightarrow>
                 \<lparr>start = index m', endIndex = index m' + length (fullMatch m'),
                  replacement = [LB, LB] @ stripMd p @ [RB, RB]\<rparr> \<in> set rs \<and>
                 (\<exists>pre suf.
                    newContent (doc ed) rs = pre @ ([LB, LB] @ stripMd p @ [RB, RB]) @ suf \<and>
                    int (length pre) = int (index m') +
                      (\<Sum>r\<leftarrow>filter (\<lambda>r. start r < index m') rs.
                          int (length (replacement r)) - (int (endIndex r) - int (start r)))))))"
proof (intro conjI impI)
  define res where "res = getFirstLinkpathDest h"
  from un have d: "decide res path (inner m) = None"
    by (auto simp: decide_def res_def)
  have "decide (getFirstLinkpathDest h) path' (inner m) = None" if "activeFile h = Some path'" for path'
    using that af d by (simp add: res_def)
  from kept_in_document[OF m this]
  show "\<exists>pre suf. doc (fst (handleEditorChange h ed)) = pre @ fullMatch m @ suf" .
  assume nothrow: "\<forall>m' \<in> set (exec_loop 0 (doc ed)).
              SLASH \<notin> set (inner m') \<longrightarrow> getFirstLinkpathDest h (inner m') path \<noteq> Throws"
  from replacements_total[of "exec_loop 0 (doc ed)" res path] nothrow
  obtain rs where rs: "replacements res path (exec_loop 0 (doc ed)) = Inr rs"
    unfolding res_def by blast
  have link: "hostCallsReturn h \<longrightarrow> doc (fst (handleEditorChange h ed)) = newContent (doc ed) rs"
    using handleEditorChange_doc[OF _ af rs[unfolded res_def]] by blast
  have keep: "\<exists>pre suf. newContent (doc ed) rs = pre @ fullMatch m @ suf \<and>
              int (length pre) = int (index m) +
                (\<Sum>r\<leftarrow>filter (\<lambda>r. start r < index m) rs.
                    int (length (replacement r)) - (int (endIndex r) - int (start r)))"
    using kept_occurrence[OF m rs d] newContent_rewritten[OF rs] by (simp add: delta_def[abs_def])
  have others: "\<lparr>start = index m', endIndex = index m' + length (fullMatch m'),
                replacement = [LB, LB] @ stripMd p @ [RB, RB]\<rparr> \<in> set rs \<and>
                 (\<exists>pre suf.
                    newContent (doc ed) rs = pre @ ([LB, LB] @ stripMd p @ [RB, RB]) @ suf \<and>
                    int (length pre) = int (index m') +
                      (\<Sum>r\<leftarrow>filter (\<lambda>r. start r < index m') rs.
                          int (length (replacement r)) - (int (endIndex r) - int (start r))))"
    if m': "m' \<in> set (exec_loop 0 (doc ed))" and ns: "SLASH \<notin> set (inner m')"
      and p: "res (inner m') path = TFile p"
      and ne: "[LB, LB] @ stripMd p @ [RB, RB] \<noteq> fullMatch m'" for m' p
  proof -
    from exec_loop_sound[OF m'] have "fullMatch m' = [LB, LB] @ inner m' @ [RB, RB]" by simp
    with ns p ne have dd: "decide res path (inner m') = Some ([LB, LB] @ stripMd p @ [RB, RB])"
      by (simp add: decide_def)
    from replacements_complete[OF rs exec_loop_wf m' dd]
    have "\<lparr>start = index m', endIndex = index m' + length (fullMatch m'),
                replacement = [LB, LB] @ stripMd p @ [RB, RB]\<rparr> \<in> set rs"
      by (simp add: opFor_def)
    moreover from replaced_occurrence[OF m' rs dd] newContent_rewritten[OF rs]
    have "\<exists>pre suf.
                    newContent (doc ed) rs = pre @ ([LB, LB] @ stripMd p @ [RB, RB]) @ suf \<and>
                    int (length pre) = int (index m') +
                      (\<Sum>r\<leftarrow>filter (\<lambda>r. start r < index m') rs.
                          int (length (replacement r)) - (int (endIndex r) - int (start r)))"
      by (simp add: delta_def[abs_def])
    ultimately show ?thesis by blast
  qed
  from rs link untouched_span[OF rs m d] keep others
  show "\<exists>rs. replacements (getFirstLinkpathDest h) path (exec_loop 0 (doc ed)) = Inr rs \<and>
             (hostCallsReturn h \<longrightarrow> doc (fst (handleEditorChange h ed)) = newContent (doc ed) rs) \<and>
             (\<forall>r \<in> set rs. endIndex r \<le> index m \<or> index m + length (fullMatch m) \<le> start r) \<and>
             (\<exists>pre suf. newContent (doc ed) rs = pre @ fullMatch m @ suf \<and>
                int (length pre) = int (index m) +
                  (\<Sum>r\<leftarrow>filter (\<lambda>r. start r < index m) rs.
                      int (length (replacement r)) - (int (endIndex r) - int (start r)))) \<and>
             (\<forall>m' \<in> set (exec_loop 0 (doc ed)). \<forall>p.
                 SLASH \<notin> set (inner m') \<longrightarrow>
                 getFirstLinkpathDest h (inner m') path = TFile p \<longrightarrow>
                 [LB, LB] @ stripMd p @ [RB, RB] \<noteq> fullMatch m' \<longrightarrow>
                 \<lparr>start = index m', endIndex = index m' + length (fullMatch m'),
                  replacement = [LB, LB] @ stripMd p @ [RB, RB]\<rparr> \<in> set rs \<and>
                 (\<exists>pre suf.
                    newContent (doc ed) rs = pre @ ([LB, LB] @ stripMd p @ [RB, RB]) @ suf \<and>
                    int (length pre) = int (index m') +
                      (\<Sum>r\<leftarrow>filter (\<lambda>r. start r < index m') rs.
                          int (length (replacement r)) - (int (endIndex r) - int (start r)))))"
    unfolding res_def by blast
qed

theorem unresolvable_preservation_witness:
  "hostCallsReturn exampleA_host \<and>
   activeFile exampleA_host = Some (utf16 ''n.md'') \<and>
   \<lparr>index = 34, fullMatch = utf16 ''[[Nowhere]]'', inner = utf16 ''Nowhere''\<rparr>
     \<in> set (exec_loop 0 (doc mixed_editor)) \<and>
   getFirstLinkpathDest exampleA_host (utf16 ''Nowhere'') (utf16 ''n.md'') = Null \<and>
   map (\<lambda>m'. getFirstLinkpathDest exampleA_host (inner m') (utf16 ''n.md''))
     (filter (\<lambda>m'. SLASH \<notin> set (inner m')) (exec_loop 0 (doc mixed_editor)))
     = [TFile (utf16 ''areas/work/Project.md''), Null] \<and>
   doc (fst (handleEditorChange exampleA_host mixed_editor))
     = utf16 ''[[areas/work/Project]] [[areas/old/Project]] [[Nowhere]]'' \<and>
   (\<exists>rs. replacements (getFirstLinkpathDest exampleA_host) (utf16 ''n.md'')
           (exec_loop 0 (doc mixed_editor)) = Inr rs \<and>
         doc (fst (handleEditorChange exampleA_host mixed_editor)) = newContent (doc mixed_editor) rs \<and>
         (\<exists>pre suf. newContent (doc mixed_editor) rs = pre @ utf16 ''[[Nowhere]]'' @ suf \<and>
            int (length pre) = 45) \<and>
         \<lparr>start = 0, endIndex = 11, replacement = utf16 ''[[areas/work/Project]]''\<rparr> \<in> set rs)"
proof -
  define m where "m = \<lparr>index = 34, fullMatch = utf16 ''[[Nowhere]]'', inner = utf16 ''Nowhere''\<rparr>"
  have hq: "hostCallsReturn exampleA_host"
    by (simp add: exampleA_host_def hostCallsReturn_def)
  have af: "activeFile exampleA_host = Some (utf16 ''n.md'')"
    by (simp add: exampleA_host_def)
  have ms: "exec_loop 0 (doc mixed_editor) = exec_loop 0 mixed_doc"
    by (simp add: mixed_editor_def)
  have mm: "m \<in> set (exec_loop 0 (doc mixed_editor))"
    unfolding ms mixed_matches m_def by simp
  have nul: "getFirstLinkpathDest exampleA_host (utf16 ''Nowhere'') (utf16 ''n.md'') = Null"
    by (simp add: exampleA_host_def utf16_def)
  then have un: "getFirstLinkpathDest exampleA_host (inner m) (utf16 ''n.md'') = Null \<or>
            getFirstLinkpathDest exampleA_host (inner m) (utf16 ''n.md'') = NotTFile"
    by (simp add: m_def)
  have calls: "map (\<lambda>m'. getFirstLinkpathDest exampleA_host (inner m') (utf16 ''n.md''))
     (filter (\<lambda>m'. SLASH \<notin> set (inner m')) (exec_loop 0 (doc mixed_editor)))
     = [TFile (utf16 ''areas/work/Project.md''), Null]"
    unfolding ms mixed_matches by (simp add: exampleA_host_def utf16_def)
  have nothrow: "\<forall>m' \<in> set (exec_loop 0 (doc mixed_editor)).
       SLASH \<notin> set (inner m') \<longrightarrow>
       getFirstLinkpathDest exampleA_host (inner m') (utf16 ''n.md'') \<noteq> Throws"
    by (simp add: exampleA_host_def)
  note th = unresolvable_preservation[OF af mm un]
  from th nothrow hq obtain rs
    where rs: "replacements (getFirstLinkpathDest exampleA_host) (utf16 ''n.md'')
                 (exec_loop 0 (doc mixed_editor)) = Inr rs"
      and link: "doc (fst (handleEditorChange exampleA_host mixed_editor))
                   = newContent (doc mixed_editor) rs"
      and keep: "\<exists>pre suf. newContent (doc mixed_editor) rs = pre @ fullMatch m @ suf \<and>
              int (length pre) = int (index m) +
                (\<Sum>r\<leftarrow>filter (\<lambda>r. start r < index m) rs.
                    int (length (replacement r)) - (int (endIndex r) - int (start r)))"
    by blast
  from rs mixed_ops have rs_eq: "rs = [\<lparr>start = 0, endIndex = 11, replacement = utf16 ''[[areas/work/Project]]''\<rparr>]"
    by (simp add: ms)
  from keep have n: "\<exists>pre suf. newContent (doc mixed_editor) rs = pre @ utf16 ''[[Nowhere]]'' @ suf \<and>
            int (length pre) = 45"
    unfolding rs_eq by (simp add: m_def utf16_def)
  have op: "\<lparr>start = 0, endIndex = 11, replacement = utf16 ''[[areas/work/Project]]''\<rparr> \<in> set rs"
    unfolding rs_eq by simp
  have d: "doc (fst (handleEditorChange exampleA_host mixed_editor))
     = utf16 ''[[areas/work/Project]] [[areas/old/Project]] [[Nowhere]]''"
    unfolding link rs_eq using mixed_newContent by (simp add: mixed_editor_def)
  from hq af mm nul calls d rs link n op show ?thesis unfolding m_def by blast
qed

section \<open>C9: cursor invariance\<close>

text \<open>
  Claim C9. Under the same conditions as for C3, when every replacement starts at or
  after the cursor offset, the cursor offset after \<open>handleEditorChange\<close> equals the
  original cursor offset.
\<close>

theorem cursor_invariance:
  assumes hq: "hostCallsReturn h"
    and af: "activeFile h = Some path"
    and rs: "replacements (getFirstLinkpathDest h) path (exec_loop 0 (doc ed)) = Inr rs"
    and c0: "0 \<le> cursor ed" and c1: "cursor ed \<le> int (length (doc ed))"
    and nt: "\<forall>t n. \<not> setCursorThrows h t n"
    and after: "\<forall>r \<in> set rs. cursor ed \<le> int (start r)"
  shows "cursor (fst (handleEditorChange h ed)) = cursor ed"
proof (cases rs)
  case Nil
  from hq have "\<not> getActiveFileThrows h" "\<not> editorReadThrows h"
    by (simp_all add: hostCallsReturn_def)
  from handleEditorChange_no_ops[OF this(1) af this(2)] Nil rs show ?thesis by simp
next
  case (Cons r rs')
  have "filter (\<lambda>r. int (start r) < cursor ed) rs = []"
    using after by (auto simp: filter_empty_conv)
  then have d: "deltaBefore (cursor ed) (sortDesc rs) = 0"
    using deltaBefore_sortDesc[OF rs, of "cursor ed"] by simp
  from first_op_fits[OF rs[unfolded Cons]] newContent_rewritten[OF rs]
  have "start r \<le> length (newContent (doc ed) rs)" by simp
  moreover from after Cons have "cursor ed \<le> int (start r)" by simp
  ultimately have le: "cursor ed \<le> int (length (newContent (doc ed) rs))" by linarith
  have ne: "rs \<noteq> []" using Cons by simp
  from handleEditorChange_written[OF hq af rs ne] nt c0 le
  show ?thesis
    by (simp add: Let_def setValue_def newOffset_def d)
qed

theorem cursor_invariance_witness:
  "hostCallsReturn exampleA_host \<and>
   activeFile exampleA_host = Some (utf16 ''n.md'') \<and>
   replacements (getFirstLinkpathDest exampleA_host) (utf16 ''n.md'')
     (exec_loop 0 (doc exampleA_editor_at4))
     = Inr [\<lparr>start = 4, endIndex = 15, replacement = utf16 ''[[areas/work/Project]]''\<rparr>] \<and>
   0 \<le> cursor exampleA_editor_at4 \<and>
   cursor exampleA_editor_at4 \<le> int (length (doc exampleA_editor_at4)) \<and>
   (\<forall>t n. \<not> setCursorThrows exampleA_host t n) \<and>
   cursor exampleA_editor_at4
     \<le> int (start \<lparr>start = 4, endIndex = 15, replacement = utf16 ''[[areas/work/Project]]''\<rparr>) \<and>
   cursor (fst (handleEditorChange exampleA_host exampleA_editor_at4)) = 4"
proof -
  define rs where
    "rs = [\<lparr>start = 4, endIndex = 15, replacement = utf16 ''[[areas/work/Project]]''\<rparr>]"
  have hq: "hostCallsReturn exampleA_host"
    by (simp add: exampleA_host_def hostCallsReturn_def)
  have af: "activeFile exampleA_host = Some (utf16 ''n.md'')"
    by (simp add: exampleA_host_def)
  have r: "replacements (getFirstLinkpathDest exampleA_host) (utf16 ''n.md'')
             (exec_loop 0 (doc exampleA_editor_at4)) = Inr rs"
    using exA_ops by (simp add: exampleA_editor_at4_def exampleA_editor_def rs_def)
  have c: "0 \<le> cursor exampleA_editor_at4"
    "cursor exampleA_editor_at4 \<le> int (length (doc exampleA_editor_at4))"
    by (simp_all add: exampleA_editor_at4_def utf16_def)
  have nt: "\<forall>t n. \<not> setCursorThrows exampleA_host t n"
    by (simp add: exampleA_host_def)
  have after: "\<forall>r \<in> set rs. cursor exampleA_editor_at4 \<le> int (start r)"
    by (simp add: rs_def exampleA_editor_at4_def)
  from cursor_invariance[OF hq af r c nt after]
  have "cursor (fst (handleEditorChange exampleA_host exampleA_editor_at4)) = 4"
    by (simp add: exampleA_editor_at4_def)
  moreover have "cursor exampleA_editor_at4
     \<le> int (start \<lparr>start = 4, endIndex = 15, replacement = utf16 ''[[areas/work/Project]]''\<rparr>)"
    by (simp add: exampleA_editor_at4_def)
  ultimately show ?thesis using hq af r c nt unfolding rs_def by blast
qed

section \<open>C10: no closing bracket inside a match\<close>

text \<open>
  Claim C10. A span \<open>[[ interior ]]\<close> of the document whose interior contains a \<open>]\<close> is
  not a match of the scan: no match of the whole text is that span, no replacement is
  recorded for it, and no match of any window, from which the Concealer makes its
  ranges, is that span.
\<close>

theorem stricter_matching:
  assumes span: "slice_str t s e = [LB, LB] @ interior @ [RB, RB]"
    and rb: "RB \<in> set interior"
  shows "(\<forall>m \<in> set (exec_loop 0 t). \<not> (index m = s \<and> index m + length (fullMatch m) = e)) \<and>
         (\<forall>rs. replacements res path (exec_loop 0 t) = Inr rs \<longrightarrow>
               (\<forall>r \<in> set rs. \<not> (start r = s \<and> endIndex r = e))) \<and>
         (\<forall>wfrom wto. \<forall>m \<in> set (exec_loop 0 (slice_str t wfrom wto)).
               \<not> (wfrom + index m = s \<and> wfrom + index m + length (fullMatch m) = e))"
proof -
  have no: "\<not> (f + index m = s \<and> f + index m + length (fullMatch m) = e)"
    if m: "m \<in> set (exec_loop 0 (slice_str t f u))" for f u m
  proof
    assume a: "f + index m = s \<and> f + index m + length (fullMatch m) = e"
    from exec_loop_sound[OF m] have fm: "fullMatch m = [LB, LB] @ inner m @ [RB, RB]"
      and nr: "RB \<notin> set (inner m)" by simp_all
    from a have s: "s = f + index m" and e: "e = f + index m + length (fullMatch m)" by auto
    from window_occurrence(1)[OF m] have "slice_str t s e = fullMatch m" unfolding s e .
    with span fm have "interior = inner m" by simp
    with rb nr show False by simp
  qed
  have whole: "slice_str t 0 (length t) = t" by (simp add: slice_str_def)
  have 1: "\<not> (index m = s \<and> index m + length (fullMatch m) = e)"
    if "m \<in> set (exec_loop 0 t)" for m
    using no[of m 0 "length t"] that by (simp add: whole)
  have 2: "\<not> (start r = s \<and> endIndex r = e)"
    if rs: "replacements res path (exec_loop 0 t) = Inr rs" and r: "r \<in> set rs" for rs r
  proof -
    from replacements_exec_op[OF rs r] obtain m u
      where "m \<in> set (exec_loop 0 t)" "r = opFor m u" by blast
    with 1[of m] show ?thesis by (simp add: opFor_def)
  qed
  from 1 2 no show ?thesis by blast
qed

theorem stricter_matching_witness:
  "slice_str stray_doc 0 9 = [LB, LB] @ utf16 ''a]b/c'' @ [RB, RB] \<and>
   RB \<in> set (utf16 ''a]b/c'') \<and>
   (0, 9) \<notin> set (map (\<lambda>m. (index m, index m + length (fullMatch m))) (exec_loop 0 stray_doc)) \<and>
   exec_loop 0 stray_doc = [\<lparr>index = 10, fullMatch = utf16 ''[[d/e]]'', inner = utf16 ''d/e''\<rparr>] \<and>
   buildDecorations True stray_doc [(0, 17)] = [(12, 14)]"
proof -
  have rb: "RB \<in> set (utf16 ''a]b/c'')" by (simp add: utf16_def)
  from stricter_matching[OF stray_span rb]
  have "\<forall>m \<in> set (exec_loop 0 stray_doc). \<not> (index m = 0 \<and> index m + length (fullMatch m) = 9)"
    by blast
  then have "(0, 9) \<notin> set (map (\<lambda>m. (index m, index m + length (fullMatch m))) (exec_loop 0 stray_doc))"
    by auto
  with stray_span rb stray_matches stray_ranges show ?thesis by blast
qed

end
